theory Spec2Isabelle
  imports Complex_Main
begin

section \<open>Data model\<close>

text \<open>
  The Prisma model \<^verbatim>\<open>Task\<close> (documented in the README): an id, a title, a status
  enum, a required due date and the self-relation \<^verbatim>\<open>dependencies\<close>. Dates are
  milliseconds since the epoch (\<^verbatim>\<open>Date.getTime()\<close>). The analysis code also reads a
  field \<^verbatim>\<open>completedAt\<close>, which no route ever writes; it is kept as an optional
  field. Fields that never meet the dependency graph, the status or the dates
  (description, priority, assignee, tags, images) are left out.
\<close>

datatype task_status = TODO | IN_PROGRESS | DONE

record task =
  task_id :: string
  title :: string
  status :: task_status
  dueDate :: int
  completedAt :: "int option"
  dependencies :: "string list"

text \<open>
  The task table, newest task first: this is the order in which
  \<^verbatim>\<open>findMany({orderBy: {createdAt: 'desc'}})\<close> returns it. The relation
  \<^verbatim>\<open>dependencies\<close> of a task is the list of ids it is connected to.
\<close>

type_synonym store = "task list"

definition findUnique :: "store \<Rightarrow> string \<Rightarrow> task option" where
  "findUnique s i = find (\<lambda>t. task_id t = i) s"

text \<open>\<^verbatim>\<open>include: {dependencies: ...}\<close>: the related records that exist.\<close>

definition include_dependencies :: "store \<Rightarrow> task \<Rightarrow> task list" where
  "include_dependencies s t = List.map_filter (findUnique s) (dependencies t)"

text \<open>
  \<^verbatim>\<open>connect\<close> adds each named record to a relation; connecting a record that is
  already connected changes nothing.
\<close>

definition connect :: "string list \<Rightarrow> string list \<Rightarrow> string list" where
  "connect old new = foldl (\<lambda>ds d. if d \<in> set ds then ds else ds @ [d]) old new"

definition update_task :: "store \<Rightarrow> string \<Rightarrow> (task \<Rightarrow> task) \<Rightarrow> store" where
  "update_task s i f = map (\<lambda>t. if task_id t = i then f t else t) s"

text \<open>
  The responses that are not a success: 404, the 400s of the routes, and the 500 of a
  \<^verbatim>\<open>catch\<close> block.
\<close>

datatype error =
    NotFound
  | InvalidInput
  | IncompleteDependencies "(string \<times> string) list"
  | CircularDependency
  | Failed

text \<open>The edges \<open>task \<rightarrow> dependency\<close> of a store.\<close>

definition dep_edges :: "store \<Rightarrow> (string \<times> string) set" where
  "dep_edges s = {(a, b). \<exists>t. t \<in> set s \<and> task_id t = a \<and> b \<in> set (dependencies t)}"

section \<open>The task route: \<^verbatim>\<open>PUT /api/tasks/[id]\<close>\<close>

subsection \<open>Status conversion\<close>

text \<open>
  \<^verbatim>\<open>String.prototype.toLowerCase\<close> on the letters that can matter here: the three
  status words are ASCII, and no character outside \<open>A\<close>..\<open>Z\<close> lower-cases to one of
  their letters.
\<close>

definition toLowerCase :: "string \<Rightarrow> string" where
  "toLowerCase =
     map (\<lambda>c. case map_of (zip ''ABCDEFGHIJKLMNOPQRSTUVWXYZ'' ''abcdefghijklmnopqrstuvwxyz'') c of
                 Some l \<Rightarrow> l | None \<Rightarrow> c)"

definition convertStatusToEnum :: "string \<Rightarrow> task_status" where
  "convertStatusToEnum st =
     (let l = toLowerCase st in
      if l = ''todo'' then TODO
      else if l = ''in-progress'' then IN_PROGRESS
      else if l = ''done'' then DONE
      else TODO)"

subsection \<open>The cycle check of the task route\<close>

text \<open>
  \<^verbatim>\<open>hasCircularDependency(taskId, visited, targetIds)\<close> of the task route. The recursion
  is bounded by fuel: \<open>None\<close> is a run that did not return within the bound. The set
  \<^verbatim>\<open>visited\<close> is mutated by the source, so it is passed in and returned.
\<close>

fun put_hasCircularDependency ::
    "nat \<Rightarrow> store \<Rightarrow> string \<Rightarrow> string set \<Rightarrow> string list \<Rightarrow> (bool \<times> string set) option"
and put_hasCircularDependency_loop ::
    "nat \<Rightarrow> store \<Rightarrow> string list \<Rightarrow> string set \<Rightarrow> string list \<Rightarrow> (bool \<times> string set) option"
where
  "put_hasCircularDependency 0 s taskId visited targetIds = None"
| "put_hasCircularDependency (Suc n) s taskId visited targetIds =
     (if taskId \<in> visited then Some (False, visited)
      else if taskId \<in> set targetIds then Some (True, visited)
      else
        (case findUnique s taskId of
           None \<Rightarrow> Some (False, insert taskId visited)
         | Some t \<Rightarrow>
             put_hasCircularDependency_loop n s (map task_id (include_dependencies s t))
               (insert taskId visited) targetIds))"
| "put_hasCircularDependency_loop n s [] visited targetIds = Some (False, visited)"
| "put_hasCircularDependency_loop n s (dep # deps) visited targetIds =
     (case put_hasCircularDependency n s dep visited targetIds of
        None \<Rightarrow> None
      | Some (found, visited') \<Rightarrow>
          if found then Some (True, visited')
          else put_hasCircularDependency_loop n s deps visited' targetIds)"

text \<open>
  \<^verbatim>\<open>checkCircularDependencies(taskId, dependencyIds)\<close> of the task route: every
  dependency id is searched with a fresh \<^verbatim>\<open>visited\<close> set and the targets
  \<^verbatim>\<open>[taskId, ...dependencyIds]\<close>. The second list is the part of
  \<^verbatim>\<open>dependencyIds\<close> the loop still has to look at.
\<close>

fun put_checkCircularDependencies_loop ::
    "nat \<Rightarrow> store \<Rightarrow> string \<Rightarrow> string list \<Rightarrow> string list \<Rightarrow> bool option"
where
  "put_checkCircularDependencies_loop n s taskId dependencyIds [] = Some False"
| "put_checkCircularDependencies_loop n s taskId dependencyIds (depId # rest) =
     (case put_hasCircularDependency n s depId {} (taskId # dependencyIds) of
        None \<Rightarrow> None
      | Some (found, visited') \<Rightarrow>
          if found then Some True
          else put_checkCircularDependencies_loop n s taskId dependencyIds rest)"

definition put_checkCircularDependencies ::
    "nat \<Rightarrow> store \<Rightarrow> string \<Rightarrow> string list \<Rightarrow> bool option" where
  "put_checkCircularDependencies n s taskId dependencyIds =
     put_checkCircularDependencies_loop n s taskId dependencyIds dependencyIds"

subsection \<open>The handler\<close>

text \<open>
  The fields of the request body the handler uses for the graph, the status and the
  dates. \<open>None\<close> is a field that is absent.
\<close>

record put_body =
  body_title :: "string option"
  body_status :: "string option"
  body_dueDate :: "int option"
  body_dependencies :: "string list option"

text \<open>\<^verbatim>\<open>status ? convertStatusToEnum(status) : undefined\<close>; the empty string is falsy.\<close>

definition normalizedStatus :: "put_body \<Rightarrow> task_status option" where
  "normalizedStatus body =
     (case body_status body of
        None \<Rightarrow> None
      | Some st \<Rightarrow> if st = [] then None else Some (convertStatusToEnum st))"

text \<open>
  \<^verbatim>\<open>prisma.task.update\<close> of the task route. An undefined field is left as it is;
  \<^verbatim>\<open>dependencies: {set: [], connect: [...]}\<close> clears the relation and connects the
  given ids, and throws (the 500 of the handler) when one of them names no record.
\<close>

definition put_update :: "store \<Rightarrow> string \<Rightarrow> put_body \<Rightarrow> error + store" where
  "put_update s i body =
     (let ds = (case body_dependencies body of None \<Rightarrow> [] | Some l \<Rightarrow> l) in
      if list_ex (\<lambda>d. findUnique s d = None) ds then Inl Failed
      else Inr (update_task s i (\<lambda>t. t\<lparr>
        title := (case body_title body of None \<Rightarrow> title t | Some x \<Rightarrow> x),
        status := (case normalizedStatus body of None \<Rightarrow> status t | Some x \<Rightarrow> x),
        dueDate := (case body_dueDate body of None \<Rightarrow> dueDate t | Some x \<Rightarrow> x),
        dependencies := (case body_dependencies body of
                           None \<Rightarrow> dependencies t | Some l \<Rightarrow> connect [] l)\<rparr>)))"

definition incompleteDependencies :: "store \<Rightarrow> task \<Rightarrow> task list" where
  "incompleteDependencies s existingTask =
     filter (\<lambda>dep. status dep \<noteq> DONE) (include_dependencies s existingTask)"

definition PUT_task :: "nat \<Rightarrow> store \<Rightarrow> string \<Rightarrow> put_body \<Rightarrow> (error + store) option" where
  "PUT_task fuel s i body =
     (case findUnique s i of
        None \<Rightarrow> Some (Inl NotFound)
      | Some existingTask \<Rightarrow>
          if normalizedStatus body = Some DONE \<and> incompleteDependencies s existingTask \<noteq> []
          then Some (Inl (IncompleteDependencies
                 (map (\<lambda>dep. (task_id dep, title dep)) (incompleteDependencies s existingTask))))
          else
            (case (case body_dependencies body of
                     None \<Rightarrow> Some False
                   | Some ds \<Rightarrow>
                       if ds \<noteq> [] then put_checkCircularDependencies fuel s i ds
                       else Some False) of
               None \<Rightarrow> None
             | Some circular \<Rightarrow>
                 if circular then Some (Inl CircularDependency)
                 else Some (put_update s i body)))"

section \<open>The dependencies route: \<^verbatim>\<open>POST /api/tasks/[id]/dependencies\<close>\<close>

text \<open>
  \<^verbatim>\<open>hasCircularDependency(taskId, visited, recursionStack, originalTaskId)\<close> of the
  dependencies route, bounded by fuel as above. Both sets are mutated by the source; they
  are passed in and returned as the pair \<open>(visited, recursionStack)\<close>. The loop is the
  \<^verbatim>\<open>for (const dep of task.dependencies)\<close> of the task \<open>taskId\<close>.
\<close>

fun hasCircularDependency ::
    "nat \<Rightarrow> store \<Rightarrow> string \<Rightarrow> string set \<times> string set \<Rightarrow> string
      \<Rightarrow> (bool \<times> string set \<times> string set) option"
and hasCircularDependency_loop ::
    "nat \<Rightarrow> store \<Rightarrow> string \<Rightarrow> string list \<Rightarrow> string set \<times> string set \<Rightarrow> string
      \<Rightarrow> (bool \<times> string set \<times> string set) option"
where
  "hasCircularDependency 0 s taskId st originalTaskId = None"
| "hasCircularDependency (Suc n) s taskId (visited, recursionStack) originalTaskId =
     (if taskId \<in> recursionStack then Some (True, visited, recursionStack)
      else if taskId \<in> visited then Some (False, visited, recursionStack)
      else
        (case findUnique s taskId of
           None \<Rightarrow> Some (False, insert taskId visited, insert taskId recursionStack - {taskId})
         | Some t \<Rightarrow>
             hasCircularDependency_loop n s taskId (map task_id (include_dependencies s t))
               (insert taskId visited, insert taskId recursionStack) originalTaskId))"
| "hasCircularDependency_loop n s taskId [] (visited, recursionStack) originalTaskId =
     Some (False, visited, recursionStack - {taskId})"
| "hasCircularDependency_loop n s taskId (dep # deps) (visited, recursionStack) originalTaskId =
     (if dep = originalTaskId then Some (True, visited, recursionStack - {taskId})
      else
        (case hasCircularDependency n s dep (visited, recursionStack) originalTaskId of
           None \<Rightarrow> None
         | Some (found, st') \<Rightarrow>
             if found then Some (True, st')
             else hasCircularDependency_loop n s taskId deps st' originalTaskId))"

text \<open>
  \<^verbatim>\<open>checkCircularDependencies(taskId, newDependencies)\<close> of the dependencies route: one
  \<^verbatim>\<open>visited\<close> set and one \<^verbatim>\<open>recursionStack\<close> for all the new dependencies.
\<close>

fun checkCircularDependencies_loop ::
    "nat \<Rightarrow> store \<Rightarrow> string \<Rightarrow> string list \<Rightarrow> string set \<times> string set \<Rightarrow> bool option"
where
  "checkCircularDependencies_loop n s taskId [] st = Some False"
| "checkCircularDependencies_loop n s taskId (depId # rest) st =
     (case hasCircularDependency n s depId st taskId of
        None \<Rightarrow> None
      | Some (found, st') \<Rightarrow>
          if found then Some True
          else checkCircularDependencies_loop n s taskId rest st')"

definition checkCircularDependencies ::
    "nat \<Rightarrow> store \<Rightarrow> string \<Rightarrow> string list \<Rightarrow> bool option" where
  "checkCircularDependencies n s taskId newDependencies =
     checkCircularDependencies_loop n s taskId newDependencies ({}, {})"

text \<open>
  The handler. The body's \<^verbatim>\<open>dependencies\<close> is \<open>None\<close> when it is absent or not an
  array. The update is \<^verbatim>\<open>dependencies: {connect: [...]}\<close>, with no \<^verbatim>\<open>set\<close>; a
  connect to an id that names no record throws (the 500 of the handler).
\<close>

definition POST_dependencies ::
    "nat \<Rightarrow> store \<Rightarrow> string \<Rightarrow> string list option \<Rightarrow> (error + store) option" where
  "POST_dependencies fuel s taskId body =
     (case body of
        None \<Rightarrow> Some (Inl InvalidInput)
      | Some deps \<Rightarrow>
          (case findUnique s taskId of
             None \<Rightarrow> Some (Inl NotFound)
           | Some t \<Rightarrow>
               (case checkCircularDependencies fuel s taskId deps of
                  None \<Rightarrow> None
                | Some circular \<Rightarrow>
                    if circular then Some (Inl CircularDependency)
                    else if list_ex (\<lambda>d. findUnique s d = None) deps then Some (Inl Failed)
                    else Some (Inr (update_task s taskId
                           (\<lambda>t. t\<lparr>dependencies := connect (dependencies t) deps\<rparr>))))))"

section \<open>Creating and deleting tasks\<close>

text \<open>
  \<^verbatim>\<open>POST /api/tasks\<close>: title and due date are required, and no cycle check is made.
  The id of the new record is chosen by the database; it is a parameter here, and an id
  that is already taken fails. The new task is the newest, so it comes first. The due
  date of a body is the instant that its date string denotes, and \<open>None\<close> when the
  body has none; the title is empty when the body has none.
\<close>

record create_body =
  new_title :: string
  new_dueDate :: "int option"
  new_dependencies :: "string list option"

definition POST_tasks :: "string \<Rightarrow> store \<Rightarrow> create_body \<Rightarrow> error + store" where
  "POST_tasks newId s body =
     (case new_dueDate body of
        None \<Rightarrow> Inl InvalidInput
      | Some due \<Rightarrow>
          if new_title body = [] then Inl InvalidInput
          else
            (let deps = (case new_dependencies body of None \<Rightarrow> [] | Some l \<Rightarrow> l) in
             if findUnique s newId \<noteq> None \<or> list_ex (\<lambda>d. findUnique s d = None) deps
             then Inl Failed
             else Inr (\<lparr>task_id = newId, title = new_title body, status = TODO,
                        dueDate = due, completedAt = None,
                        dependencies = connect [] deps\<rparr> # s)))"

text \<open>
  \<^verbatim>\<open>DELETE /api/tasks/[id]\<close>: the record goes, and with it every row of the relation
  table that names it.
\<close>

definition DELETE_task :: "store \<Rightarrow> string \<Rightarrow> error + store" where
  "DELETE_task s i =
     (case findUnique s i of
        None \<Rightarrow> Inl NotFound
      | Some t \<Rightarrow>
          Inr (map (\<lambda>t. t\<lparr>dependencies := removeAll i (dependencies t)\<rparr>)
                 (filter (\<lambda>t. task_id t \<noteq> i) s)))"

text \<open>A run of requests, each of which is accepted; \<open>None\<close> when one is not.\<close>

datatype request =
    Create string create_body
  | SetDependencies string "string list"
  | Delete string

fun accept :: "nat \<Rightarrow> store \<Rightarrow> request \<Rightarrow> store option" where
  "accept fuel s (Create newId body) =
     (case POST_tasks newId s body of Inr s' \<Rightarrow> Some s' | Inl e \<Rightarrow> None)"
| "accept fuel s (SetDependencies i deps) =
     (case POST_dependencies fuel s i (Some deps) of Some (Inr s') \<Rightarrow> Some s' | _ \<Rightarrow> None)"
| "accept fuel s (Delete i) =
     (case DELETE_task s i of Inr s' \<Rightarrow> Some s' | Inl e \<Rightarrow> None)"

fun accept_all :: "nat \<Rightarrow> store \<Rightarrow> request list \<Rightarrow> store option" where
  "accept_all fuel s [] = Some s"
| "accept_all fuel s (r # rs) =
     (case accept fuel s r of None \<Rightarrow> None | Some s' \<Rightarrow> accept_all fuel s' rs)"

section \<open>Invariants of the store\<close>

text \<open>The edges the search follows: from a task to its dependencies that exist.\<close>

definition live_edges :: "store \<Rightarrow> (string \<times> string) set" where
  "live_edges s =
     {(v, d). \<exists>t. findUnique s v = Some t \<and> d \<in> set (map task_id (include_dependencies s t))}"

text \<open>
  Every visited task that is not on the recursion stack has all its dependencies
  visited, and none of them is the original task.
\<close>

definition explored :: "store \<Rightarrow> string \<Rightarrow> string set \<Rightarrow> string set \<Rightarrow> bool" where
  "explored s orig V R =
     (\<forall>v d. v \<in> V \<and> v \<notin> R \<and> (v, d) \<in> live_edges s \<longrightarrow> d \<in> V \<and> d \<noteq> orig)"

text \<open>
  A store as the database keeps it: ids are unique, and every dependency names a task.
\<close>

definition wf_store :: "store \<Rightarrow> bool" where
  "wf_store s =
     (distinct (map task_id s) \<and> list_all (\<lambda>t. set (dependencies t) \<subseteq> task_id ` set s) s)"

fun no_self_dependency :: "request \<Rightarrow> bool" where
  "no_self_dependency (SetDependencies i deps) = (i \<notin> set deps)"
| "no_self_dependency r = True"

section \<open>The analysis route: \<^verbatim>\<open>GET /api/tasks/analysis\<close>\<close>

text \<open>
  \<^verbatim>\<open>new Map(entries)\<close> sets the entries in order, so the last entry of a key is the one
  that stays.
\<close>

definition Map_new :: "('k \<times> 'v) list \<Rightarrow> 'k \<rightharpoonup> 'v" where
  "Map_new entries = foldl (\<lambda>m (k, v). m(k \<mapsto> v)) Map.empty entries"

subsection \<open>The clock and the result object\<close>

text \<open>
  Every \<^verbatim>\<open>new Date()\<close> reads the clock again. A clock is the sequence of these
  readings, in milliseconds since the epoch: \<open>clock k\<close> is what the call with number
  \<open>k\<close> of a request returns. The functions that read the clock take the number of the
  next reading and give it back advanced.
\<close>

type_synonym clock = "nat \<Rightarrow> int"

text \<open>
  \<^verbatim>\<open>obj[key] = value\<close> on a plain object, for a string value: the object gets or
  overwrites its own property \<open>key\<close>. The one exception is the key \<^verbatim>\<open>__proto__\<close>, the
  accessor that a plain object inherits: its setter ignores a string, and nothing is
  stored. The object is the map from its keys to their values.
\<close>

definition Object_set :: "string \<Rightarrow> 'v \<Rightarrow> (string \<rightharpoonup> 'v) \<Rightarrow> (string \<rightharpoonup> 'v)" where
  "Object_set key v obj = (if key = ''__proto__'' then obj else obj(key \<mapsto> v))"

subsection \<open>Earliest start dates\<close>

text \<open>
  \<^verbatim>\<open>calculateEarliestStartDate(task, taskMap, earliestStartDates)\<close>; the third argument
  is never read by the source and is left out. A task without dependencies reads the
  clock; \<^verbatim>\<open>new Date(0)\<close> is \<open>0\<close>. The \<^verbatim>\<open>forEach\<close> over the dependencies is the fold.
\<close>

definition calculateEarliestStartDate ::
    "clock \<Rightarrow> nat \<Rightarrow> task \<Rightarrow> (string \<rightharpoonup> task) \<Rightarrow> int \<times> nat" where
  "calculateEarliestStartDate clock k t taskMap =
     (if dependencies t = [] then (clock k, Suc k)
      else
        (foldl (\<lambda>latestCompletionDate dep.
            (case taskMap dep of
               None \<Rightarrow> latestCompletionDate
             | Some dependency \<Rightarrow>
                 (let dependencyCompletionDate = dueDate dependency in
                  if status dependency = DONE then
                    (let completionDate =
                       (case completedAt dependency of
                          Some c \<Rightarrow> c | None \<Rightarrow> dependencyCompletionDate)
                     in if completionDate > latestCompletionDate then completionDate
                        else latestCompletionDate)
                  else if dependencyCompletionDate > latestCompletionDate
                       then dependencyCompletionDate
                       else latestCompletionDate)))
          0 (dependencies t), k))"

text \<open>
  \<^verbatim>\<open>calculateEarliestStartDates(tasks)\<close>. The loop is its \<^verbatim>\<open>tasks.forEach\<close>: the result
  object is keyed by title, \<^verbatim>\<open>earliestStartDates[task.title] = ...\<close>, and a date stands
  for its ISO string.
\<close>

fun calculateEarliestStartDates_loop ::
    "clock \<Rightarrow> task list \<Rightarrow> (string \<rightharpoonup> task) \<Rightarrow> (string \<rightharpoonup> int) \<times> nat
      \<Rightarrow> (string \<rightharpoonup> int) \<times> nat"
where
  "calculateEarliestStartDates_loop clock [] taskMap st = st"
| "calculateEarliestStartDates_loop clock (t # ts) taskMap (earliestStartDates, k) =
     (case calculateEarliestStartDate clock k t taskMap of
        (earliestStart, k') \<Rightarrow>
          calculateEarliestStartDates_loop clock ts taskMap
            (Object_set (title t) earliestStart earliestStartDates, k'))"

definition calculateEarliestStartDates ::
    "clock \<Rightarrow> nat \<Rightarrow> task list \<Rightarrow> (string \<rightharpoonup> int) \<times> nat" where
  "calculateEarliestStartDates clock k tasks =
     calculateEarliestStartDates_loop clock tasks (Map_new (map (\<lambda>t. (task_id t, t)) tasks))
       (Map.empty, k)"

subsection \<open>Critical path\<close>

text \<open>
  \<^verbatim>\<open>dfs(taskId, taskMap, visited, pathLengths)\<close>, bounded by fuel. The mutable
  \<^verbatim>\<open>visited\<close> and \<^verbatim>\<open>pathLengths\<close> are the pair passed in and returned. The loop is
  the \<^verbatim>\<open>forEach\<close> over the dependencies, with its locals \<^verbatim>\<open>maxLength\<close> and
  \<^verbatim>\<open>longestPath\<close>.
\<close>

fun dfs ::
    "nat \<Rightarrow> string \<Rightarrow> (string \<rightharpoonup> task) \<Rightarrow> string set \<times> (string \<rightharpoonup> nat)
      \<Rightarrow> (string list \<times> string set \<times> (string \<rightharpoonup> nat)) option"
and dfs_loop ::
    "nat \<Rightarrow> string list \<Rightarrow> (string \<rightharpoonup> task) \<Rightarrow> nat \<times> string list
      \<Rightarrow> string set \<times> (string \<rightharpoonup> nat)
      \<Rightarrow> (string list \<times> string set \<times> (string \<rightharpoonup> nat)) option"
where
  "dfs 0 taskId taskMap st = None"
| "dfs (Suc n) taskId taskMap (visited, pathLengths) =
     (if taskId \<in> visited
      then Some (if pathLengths taskId \<noteq> None then [taskId] else [], visited, pathLengths)
      else
        (case taskMap taskId of
           None \<Rightarrow> Some ([taskId], insert taskId visited, pathLengths(taskId \<mapsto> 1))
         | Some t \<Rightarrow>
             if dependencies t = []
             then Some ([taskId], insert taskId visited, pathLengths(taskId \<mapsto> 1))
             else
               (case dfs_loop n (dependencies t) taskMap (0, [])
                       (insert taskId visited, pathLengths) of
                  None \<Rightarrow> None
                | Some (longestPath, visited', pathLengths') \<Rightarrow>
                    (let currentPath = longestPath @ [taskId] in
                     Some (currentPath, visited',
                           pathLengths'(taskId \<mapsto> length currentPath))))))"
| "dfs_loop n [] taskMap (maxLength, longestPath) st = Some (longestPath, st)"
| "dfs_loop n (dep # deps) taskMap (maxLength, longestPath) st =
     (case dfs n dep taskMap st of
        None \<Rightarrow> None
      | Some (depPath, st') \<Rightarrow>
          if length depPath > maxLength
          then dfs_loop n deps taskMap (length depPath, depPath) st'
          else dfs_loop n deps taskMap (maxLength, longestPath) st')"

text \<open>
  The \<^verbatim>\<open>tasks.forEach\<close> of \<^verbatim>\<open>findCriticalPath\<close>, with its locals \<^verbatim>\<open>maxLength\<close> and
  \<^verbatim>\<open>criticalPath\<close>; it yields the critical path as task ids.
\<close>

fun findCriticalPath_loop ::
    "nat \<Rightarrow> task list \<Rightarrow> (string \<rightharpoonup> task) \<Rightarrow> nat \<times> string list
      \<Rightarrow> string set \<times> (string \<rightharpoonup> nat) \<Rightarrow> string list option"
where
  "findCriticalPath_loop n [] taskMap (maxLength, criticalPath) st = Some criticalPath"
| "findCriticalPath_loop n (t # ts) taskMap (maxLength, criticalPath) (visited, pathLengths) =
     (if task_id t \<notin> visited then
        (case dfs n (task_id t) taskMap (visited, pathLengths) of
           None \<Rightarrow> None
         | Some (path, st') \<Rightarrow>
             if length path > maxLength
             then findCriticalPath_loop n ts taskMap (length path, path) st'
             else findCriticalPath_loop n ts taskMap (maxLength, criticalPath) st')
      else findCriticalPath_loop n ts taskMap (maxLength, criticalPath) (visited, pathLengths))"

definition criticalPathIds :: "nat \<Rightarrow> task list \<Rightarrow> string list option" where
  "criticalPathIds n tasks =
     findCriticalPath_loop n tasks (Map_new (map (\<lambda>t. (task_id t, t)) tasks)) (0, [])
       ({}, Map.empty)"

text \<open>\<^verbatim>\<open>findCriticalPath(tasks)\<close>: the ids of the path, converted to titles.\<close>

definition findCriticalPath :: "nat \<Rightarrow> task list \<Rightarrow> string list option" where
  "findCriticalPath n tasks =
     (let taskMap = Map_new (map (\<lambda>t. (task_id t, t)) tasks) in
      map_option
        (map (\<lambda>taskId. case taskMap taskId of Some t \<Rightarrow> title t | None \<Rightarrow> taskId))
        (criticalPathIds n tasks))"

subsection \<open>Total duration\<close>

text \<open>
  \<^verbatim>\<open>Math.ceil(ms / (1000 * 60 * 60 * 24))\<close> on an integer number of milliseconds. The
  quotient of two integers of this size is rounded by less than the distance of a
  non-integer quotient to the next integer, so the ceiling is the exact one.
\<close>

definition ceil_days :: "int \<Rightarrow> int" where
  "ceil_days ms = - ((- ms) div (1000 * 60 * 60 * 24))"

text \<open>
  \<^verbatim>\<open>calculateTotalDuration(tasks, criticalPath)\<close>. The task map is keyed by title.
  The due date of a record is a \<^verbatim>\<open>Date\<close> object, which is truthy, so
  \<^verbatim>\<open>task && task.dueDate\<close> is the test that the title is found. The loop is the
  \<^verbatim>\<open>for\<close> over the path; it reads the clock once for every entry that is found.
\<close>

fun calculateTotalDuration_loop ::
    "clock \<Rightarrow> (string \<rightharpoonup> task) \<Rightarrow> string list \<Rightarrow> int \<times> nat \<Rightarrow> int \<times> nat"
where
  "calculateTotalDuration_loop clock taskMap [] st = st"
| "calculateTotalDuration_loop clock taskMap (entry # rest) (totalDays, k) =
     (case taskMap entry of
        None \<Rightarrow> calculateTotalDuration_loop clock taskMap rest (totalDays, k)
      | Some t \<Rightarrow>
          calculateTotalDuration_loop clock taskMap rest
            (totalDays + max 1 (ceil_days (dueDate t - clock k)), Suc k))"

definition calculateTotalDuration ::
    "clock \<Rightarrow> nat \<Rightarrow> task list \<Rightarrow> string list \<Rightarrow> int \<times> nat" where
  "calculateTotalDuration clock k tasks criticalPath =
     (if criticalPath = [] then (0, k)
      else calculateTotalDuration_loop clock (Map_new (map (\<lambda>t. (title t, t)) tasks))
             criticalPath (0, k))"

text \<open>
  The response of the route: earliest start dates, critical path, total duration, in the
  order in which the handler computes them. The clock readings of the request are counted
  from 0.
\<close>

definition GET_analysis ::
    "nat \<Rightarrow> clock \<Rightarrow> task list \<Rightarrow> ((string \<rightharpoonup> int) \<times> string list \<times> int) option" where
  "GET_analysis fuel clock tasks =
     (case calculateEarliestStartDates clock 0 tasks of
        (earliestStartDates, k) \<Rightarrow>
          (case findCriticalPath fuel tasks of
             None \<Rightarrow> None
           | Some criticalPath \<Rightarrow>
               Some (earliestStartDates, criticalPath,
                     fst (calculateTotalDuration clock k tasks criticalPath))))"

section \<open>The specification's words\<close>

text \<open>
  The reference date of a dependency: its \<^verbatim>\<open>completedAt\<close> if its status is done and
  \<^verbatim>\<open>completedAt\<close> is set, else its due date. It is also the date that the loop body
  of \<^const>\<open>calculateEarliestStartDate\<close> compares with \<^verbatim>\<open>latestCompletionDate\<close>.
\<close>

definition referenceDate :: "task \<Rightarrow> int" where
  "referenceDate d =
     (if status d = DONE then (case completedAt d of Some c \<Rightarrow> c | None \<Rightarrow> dueDate d)
      else dueDate d)"

text \<open>
  The earliest start as the specification words it: the latest reference date found
  along the whole ancestor chain of a task, down to depth \<open>n\<close>, and the clock for a task
  without dependencies.
\<close>

fun spec_ancestorDates :: "nat \<Rightarrow> (string \<rightharpoonup> task) \<Rightarrow> task \<Rightarrow> int list" where
  "spec_ancestorDates 0 taskMap t = []"
| "spec_ancestorDates (Suc n) taskMap t =
     concat (map (\<lambda>d. referenceDate d # spec_ancestorDates n taskMap d)
               (List.map_filter taskMap (dependencies t)))"

definition spec_earliestStart :: "nat \<Rightarrow> int \<Rightarrow> (string \<rightharpoonup> task) \<Rightarrow> task \<Rightarrow> int" where
  "spec_earliestStart n now taskMap t =
     (if dependencies t = [] then now else Max (set (spec_ancestorDates n taskMap t)))"

text \<open>
  A chain of dependency edges, most upstream task first: every task of the list but the
  first depends on the one before it.
\<close>

fun spec_chain :: "task list \<Rightarrow> string list \<Rightarrow> bool" where
  "spec_chain tasks [] = True"
| "spec_chain tasks [a] = (findUnique tasks a \<noteq> None)"
| "spec_chain tasks (a # b # rest) =
     (findUnique tasks a \<noteq> None
      \<and> (case findUnique tasks b of None \<Rightarrow> False | Some t \<Rightarrow> a \<in> set (dependencies t))
      \<and> spec_chain tasks (b # rest))"

section \<open>Example data\<close>

definition mk_task :: "string \<Rightarrow> string \<Rightarrow> task_status \<Rightarrow> int \<Rightarrow> string list \<Rightarrow> task" where
  "mk_task i ttl st due deps =
     \<lparr>task_id = i, title = ttl, status = st, dueDate = due, completedAt = None,
      dependencies = deps\<rparr>"

text \<open>A body that carries a status and nothing else, and one that carries dependencies.\<close>

definition status_only :: "string \<Rightarrow> put_body" where
  "status_only st =
     \<lparr>body_title = None, body_status = Some st, body_dueDate = None,
      body_dependencies = None\<rparr>"

definition dependencies_only :: "string list \<Rightarrow> put_body" where
  "dependencies_only ds =
     \<lparr>body_title = None, body_status = None, body_dueDate = None,
      body_dependencies = Some ds\<rparr>"

text \<open>Two tasks without dependencies.\<close>

definition two_tasks :: store where
  "two_tasks =
     [mk_task ''b'' ''Write report'' TODO 0 [], mk_task ''a'' ''Research topic'' TODO 0 []]"

text \<open>The report depends on the research, which is not done.\<close>

definition report_after_research :: store where
  "report_after_research =
     [mk_task ''b'' ''Write report'' TODO 0 [''a''],
      mk_task ''a'' ''Research topic'' TODO 0 []]"

text \<open>Three tasks; the oldest depends on the second.\<close>

definition three_tasks :: store where
  "three_tasks =
     [mk_task ''c'' ''Make slides'' TODO 0 [],
      mk_task ''b'' ''Write report'' TODO 0 [],
      mk_task ''a'' ''Research topic'' TODO 0 [''b'']]"

text \<open>
  A chain \<open>a \<leftarrow> b \<leftarrow> c\<close>: \<open>a\<close> was created first, then \<open>c\<close>, then \<open>b\<close> with the
  dependency \<open>a\<close>, and \<open>c\<close> was given the dependency \<open>b\<close> afterwards. The due dates are day
  5 for \<open>b\<close>, day 20 for \<open>c\<close>, and one millisecond after day 10 for \<open>a\<close>.
\<close>

definition chain3 :: "task list" where
  "chain3 =
     [mk_task ''b'' ''Write report'' TODO 432000000 [''a''],
      mk_task ''c'' ''Make slides'' TODO 1728000000 [''b''],
      mk_task ''a'' ''Research topic'' TODO 864000001 []]"

text \<open>The report depends on the research, which is done.\<close>

definition report_after_done_research :: store where
  "report_after_done_research =
     [mk_task ''b'' ''Write report'' TODO 0 [''a''],
      mk_task ''a'' ''Research topic'' DONE 0 []]"

text \<open>A body that asks for done and proposes the task itself as its dependency.\<close>

definition done_and_self :: put_body where
  "done_and_self =
     \<lparr>body_title = None, body_status = Some ''done'', body_dueDate = None,
      body_dependencies = Some [''b'']\<rparr>"

text \<open>A clock that advances by one millisecond from one reading to the next.\<close>

definition ticking_clock :: "int \<Rightarrow> clock" where
  "ticking_clock start k = start + int k"

text \<open>Two tasks with the same title, and a third one.\<close>

definition same_title :: "task list" where
  "same_title =
     [mk_task ''r2'' ''Review'' TODO (3 * 86400000) [''w''],
      mk_task ''r1'' ''Review'' TODO 86400000 [],
      mk_task ''w'' ''Write report'' TODO 7 []]"

text \<open>Two tasks that both have the title \<^verbatim>\<open>__proto__\<close>.\<close>

definition proto_titles :: "task list" where
  "proto_titles =
     [mk_task ''p2'' ''__proto__'' TODO 86400000 [],
      mk_task ''p1'' ''__proto__'' TODO 86400000 []]"

section \<open>Facts about the store\<close>

lemmas route_defs =
  PUT_task_def POST_dependencies_def POST_tasks_def DELETE_task_def findUnique_def
  normalizedStatus_def put_checkCircularDependencies_def checkCircularDependencies_def
  update_task_def put_update_def incompleteDependencies_def include_dependencies_def
  connect_def convertStatusToEnum_def toLowerCase_def
  mk_task_def status_only_def dependencies_only_def

lemma dep_edges_Nil: "dep_edges [] = {}"
  by (simp add: dep_edges_def)

lemma dep_edges_Cons:
  "dep_edges (t # s) = (\<lambda>d. (task_id t, d)) ` set (dependencies t) \<union> dep_edges s"
  by (auto simp: dep_edges_def)

lemma acyclic_Nil: "acyclic ({} :: ('a \<times> 'a) set)"
  by (simp add: acyclic_def)

lemma findUnique_update_task:
  assumes "\<And>t. task_id (f t) = task_id t"
  shows "findUnique (update_task s i f) i = map_option f (findUnique s i)"
  using assms by (induction s) (simp_all add: findUnique_def update_task_def)

lemma set_connect: "set (connect old new) = set old \<union> set new"
  unfolding connect_def by (induction new arbitrary: old) auto

lemma distinct_connect: "distinct old \<Longrightarrow> distinct (connect old new)"
  unfolding connect_def by (induction new arbitrary: old) auto

section \<open>The cycle check of the task route\<close>

text \<open>
  The first dependency id is itself one of the targets, so the search for it answers
  \<open>True\<close> at once: with any fuel at all, a non-empty proposal is found circular.
\<close>

lemma put_check_nonempty:
  "ds \<noteq> [] \<Longrightarrow> put_checkCircularDependencies (Suc n) s i ds = Some True"
  by (cases ds) (simp_all add: put_checkCircularDependencies_def)

text \<open>
  So a task update that carries a non-empty dependency list is never accepted: it is
  rejected as circular, unless the completion gate has rejected it before.
\<close>

lemma PUT_task_nonempty_dependencies:
  assumes "findUnique s i = Some t" and "body_dependencies body = Some ds" and "ds \<noteq> []"
  shows "PUT_task (Suc n) s i body = Some (Inl CircularDependency)
           \<or> (\<exists>l. PUT_task (Suc n) s i body = Some (Inl (IncompleteDependencies l)))"
  using assms by (simp add: PUT_task_def put_check_nonempty)

text \<open>
  C1. A task update that proposes a non-empty dependency set should be rejected as
  circular exactly when the replaced graph has a cycle. The task route rejects this
  proposal, \<open>a\<close> depends on \<open>b\<close> in a store of two unrelated tasks, although the
  graph it asks for has no cycle.
\<close>

theorem put_rejects_acyclic_proposal:
  "PUT_task (Suc n) two_tasks ''a'' (dependencies_only [''b'']) = Some (Inl CircularDependency)
   \<and> acyclic (dep_edges (update_task two_tasks ''a'' (\<lambda>t. t\<lparr>dependencies := [''b'']\<rparr>)))"
  by (simp add: route_defs two_tasks_def dep_edges_Cons dep_edges_Nil acyclic_Nil)

text \<open>
  The task route answers with any fuel but none, and its answer does not depend on the
  fuel.
\<close>

lemma PUT_task_returns: "\<exists>r. PUT_task (Suc n) s i body = Some r"
  by (auto simp: PUT_task_def put_check_nonempty split: option.splits)

lemma PUT_task_fuel: "PUT_task (Suc n) s i body = PUT_task (Suc 0) s i body"
  by (auto simp: PUT_task_def put_check_nonempty split: option.splits)

section \<open>The cycle check of the dependencies route\<close>

text \<open>
  C3. A proposed dependency set that holds the task's own id should be rejected as
  circular by both routes. The dependencies route accepts it for a task without
  dependencies, and stores the edge from the task to itself.
\<close>

theorem self_dependency_accepted:
  "POST_dependencies (Suc (Suc n)) [mk_task ''a'' ''Research topic'' TODO 0 []] ''a''
     (Some [''a''])
   = Some (Inr [mk_task ''a'' ''Research topic'' TODO 0 [''a'']])"
  by (simp add: route_defs)

text \<open>
  C2. After a run of accepted requests the graph should have no cycle. Creating a task
  and then giving it itself as a dependency is such a run, and in the store it leaves
  the task reaches itself.
\<close>

theorem self_dependency_makes_cycle:
  "accept_all (Suc (Suc n)) []
     [Create ''a''
        \<lparr>new_title = ''Research topic'', new_dueDate = Some 0, new_dependencies = None\<rparr>,
      SetDependencies ''a'' [''a'']]
   = Some [mk_task ''a'' ''Research topic'' TODO 0 [''a'']]
   \<and> (''a'', ''a'') \<in> (dep_edges [mk_task ''a'' ''Research topic'' TODO 0 [''a'']])\<^sup>+"
  by (simp add: route_defs dep_edges_Cons dep_edges_Nil)

section \<open>The dependencies route returns\<close>

lemma findUnique_task_id: "findUnique s i = Some t \<Longrightarrow> task_id t = i \<and> t \<in> set s"
  unfolding findUnique_def by (induction s) (auto split: if_splits)

lemma include_dependencies_ids:
  "set (map task_id (include_dependencies s t)) \<subseteq> set (dependencies t)"
  by (auto simp: include_dependencies_def List.map_filter_def dest: findUnique_task_id)

lemma hasCircularDependency_fuel_mono:
  shows "hasCircularDependency n s i st orig = Some r \<Longrightarrow> n \<le> n'
           \<Longrightarrow> hasCircularDependency n' s i st orig = Some r"
    and "hasCircularDependency_loop n s i ds st orig = Some r \<Longrightarrow> n \<le> n'
           \<Longrightarrow> hasCircularDependency_loop n' s i ds st orig = Some r"
proof (induction n s i st orig and n s i ds st orig arbitrary: r n' and r n'
    rule: hasCircularDependency_hasCircularDependency_loop.induct)
  case (1 s taskId st originalTaskId)
  then show ?case by simp
next
  case (2 n s taskId visited recursionStack originalTaskId)
  from "2.prems"(2) obtain k where n': "n' = Suc k" and k: "n \<le> k"
    by (cases n') auto
  show ?case
  proof (cases "taskId \<notin> recursionStack \<and> taskId \<notin> visited \<and> findUnique s taskId \<noteq> None")
    case True
    then obtain t where t: "taskId \<notin> recursionStack" "taskId \<notin> visited"
      "findUnique s taskId = Some t" by auto
    with "2.prems"(1) have
      "hasCircularDependency_loop n s taskId (map task_id (include_dependencies s t))
         (insert taskId visited, insert taskId recursionStack) originalTaskId = Some r"
      by simp
    from "2.IH" [OF t this k] t show ?thesis unfolding n' by simp
  next
    case False
    with "2.prems"(1) show ?thesis unfolding n' by (auto split: option.splits)
  qed
next
  case (3 n s taskId visited recursionStack originalTaskId)
  then show ?case by simp
next
  case (4 n s taskId dep deps visited recursionStack originalTaskId)
  show ?case
  proof (cases "dep = originalTaskId")
    case True
    with "4.prems"(1) show ?thesis by simp
  next
    case ne: False
    with "4.prems"(1) obtain found st' where
      d: "hasCircularDependency n s dep (visited, recursionStack) originalTaskId
            = Some (found, st')"
      by (auto split: option.splits)
    from "4.IH"(1) [OF ne d "4.prems"(2)]
    have d': "hasCircularDependency n' s dep (visited, recursionStack) originalTaskId
            = Some (found, st')" .
    show ?thesis
    proof (cases found)
      case True
      with "4.prems"(1) d d' ne show ?thesis by auto
    next
      case False
      with "4.prems"(1) d ne
      have "hasCircularDependency_loop n s taskId deps st' originalTaskId = Some r" by simp
      from "4.IH"(2) [OF ne d refl False this "4.prems"(2)] d' False ne show ?thesis by simp
    qed
  qed
qed

lemma hasCircularDependency_returns:
  shows "finite U \<Longrightarrow> list_all (\<lambda>t. set (dependencies t) \<subseteq> U) s
           \<Longrightarrow> i \<in> U \<Longrightarrow> card (U - fst st) < n
           \<Longrightarrow> \<exists>r. hasCircularDependency n s i st orig = Some r
                 \<and> fst st \<subseteq> fst (snd r)"
    and "finite U \<Longrightarrow> list_all (\<lambda>t. set (dependencies t) \<subseteq> U) s
           \<Longrightarrow> set ds \<subseteq> U \<Longrightarrow> card (U - fst st) < n
           \<Longrightarrow> \<exists>r. hasCircularDependency_loop n s i ds st orig = Some r
                 \<and> fst st \<subseteq> fst (snd r)"
proof (induction n s i st orig and n s i ds st orig
    rule: hasCircularDependency_hasCircularDependency_loop.induct)
  case (1 s taskId st originalTaskId)
  then show ?case by simp
next
  case (2 n s taskId visited recursionStack originalTaskId)
  note fin = "2.prems"(1) and closed = "2.prems"(2)
  show ?case
  proof (cases "taskId \<notin> recursionStack \<and> taskId \<notin> visited \<and> findUnique s taskId \<noteq> None")
    case True
    then obtain t where t: "taskId \<notin> recursionStack" "taskId \<notin> visited"
      "findUnique s taskId = Some t" by auto
    from findUnique_task_id [OF t(3)] closed have "set (dependencies t) \<subseteq> U"
      by (auto simp: list_all_iff)
    with include_dependencies_ids [of s t]
    have sub: "set (map task_id (include_dependencies s t)) \<subseteq> U" by blast
    from t(2) "2.prems"(3) have "taskId \<in> U - visited" by simp
    with fin have "card (U - insert taskId visited) < card (U - visited)"
      by (metis Diff_insert card_Diff1_less finite_Diff)
    with "2.prems"(4)
    have "card (U - fst (insert taskId visited, insert taskId recursionStack)) < n" by simp
    from "2.IH" [OF t fin closed sub this]
    obtain b st' where "hasCircularDependency_loop n s taskId
        (map task_id (include_dependencies s t))
        (insert taskId visited, insert taskId recursionStack) originalTaskId = Some (b, st')"
      and "insert taskId visited \<subseteq> fst st'" by fastforce
    with t show ?thesis by auto
  next
    case False
    then show ?thesis by (auto split: option.splits)
  qed
next
  case (3 n s taskId visited recursionStack originalTaskId)
  then show ?case by simp
next
  case (4 n s taskId dep deps visited recursionStack originalTaskId)
  note fin = "4.prems"(1) and closed = "4.prems"(2)
  from "4.prems"(3) have dep: "dep \<in> U" and deps: "set deps \<subseteq> U" by auto
  show ?case
  proof (cases "dep = originalTaskId")
    case True
    then show ?thesis by simp
  next
    case ne: False
    from "4.IH"(1) [OF ne fin closed dep "4.prems"(4)]
    obtain found st' where
      d: "hasCircularDependency n s dep (visited, recursionStack) originalTaskId
            = Some (found, st')"
      and mono: "visited \<subseteq> fst st'" by fastforce
    from mono have "U - fst st' \<subseteq> U - visited" by auto
    with fin have "card (U - fst st') \<le> card (U - visited)"
      by (simp add: card_mono)
    with "4.prems"(4) have c: "card (U - fst st') < n" by simp
    show ?thesis
    proof (cases found)
      case True
      with d ne mono show ?thesis by simp
    next
      case False
      from "4.IH"(2) [OF ne d refl False fin closed deps c] d False ne mono
      show ?thesis by auto
    qed
  qed
qed

lemma checkCircularDependencies_loop_fuel_mono:
  "checkCircularDependencies_loop n s i ds st = Some b \<Longrightarrow> n \<le> n'
     \<Longrightarrow> checkCircularDependencies_loop n' s i ds st = Some b"
proof (induction ds arbitrary: st)
  case Nil
  then show ?case by simp
next
  case (Cons d ds)
  from Cons.prems(1) obtain found st' where
    d: "hasCircularDependency n s d st i = Some (found, st')"
    by (auto split: option.splits)
  from hasCircularDependency_fuel_mono(1) [OF d Cons.prems(2)]
  have d': "hasCircularDependency n' s d st i = Some (found, st')" .
  show ?case
  proof (cases found)
    case True
    with Cons.prems(1) d d' show ?thesis by simp
  next
    case False
    with Cons.prems(1) d have "checkCircularDependencies_loop n s i ds st' = Some b" by simp
    from Cons.IH [OF this Cons.prems(2)] d' False show ?thesis by simp
  qed
qed

lemma checkCircularDependencies_loop_returns:
  "finite U \<Longrightarrow> list_all (\<lambda>t. set (dependencies t) \<subseteq> U) s \<Longrightarrow> set ds \<subseteq> U
     \<Longrightarrow> card (U - fst st) < n
     \<Longrightarrow> checkCircularDependencies_loop n s i ds st \<noteq> None"
proof (induction ds arbitrary: st)
  case Nil
  then show ?case by simp
next
  case (Cons d ds)
  from Cons.prems(3) have d: "d \<in> U" and ds: "set ds \<subseteq> U" by auto
  from hasCircularDependency_returns(1) [OF Cons.prems(1,2) d Cons.prems(4)]
  obtain found st' where h: "hasCircularDependency n s d st i = Some (found, st')"
    and mono: "fst st \<subseteq> fst st'" by fastforce
  from mono have "U - fst st' \<subseteq> U - fst st" by auto
  with Cons.prems(1) have "card (U - fst st') \<le> card (U - fst st)"
    by (simp add: card_mono)
  with Cons.prems(4) have c: "card (U - fst st') < n" by simp
  from Cons.IH [OF Cons.prems(1,2) ds c] h show ?case by (cases found) auto
qed

text \<open>
  The dependencies route answers when the fuel exceeds the number of ids in the store
  and the request, and more fuel does not change its answer.
\<close>

lemma POST_dependencies_returns:
  assumes "card (set (case body of None \<Rightarrow> [] | Some deps \<Rightarrow> deps)
             \<union> (\<Union>t\<in>set s. set (dependencies t))) < fuel"
  shows "\<exists>r. POST_dependencies fuel s i body = Some r"
proof (cases body)
  case None
  then show ?thesis by (simp add: POST_dependencies_def)
next
  case (Some deps)
  let ?U = "set deps \<union> (\<Union>t\<in>set s. set (dependencies t))"
  have fin: "finite ?U" by simp
  have closed: "list_all (\<lambda>t. set (dependencies t) \<subseteq> ?U) s"
    by (auto simp: list_all_iff)
  have "card (?U - fst ({} :: string set, {} :: string set)) < fuel"
    using assms Some by simp
  from checkCircularDependencies_loop_returns [OF fin closed _ this, of deps i]
  obtain b where "checkCircularDependencies fuel s i deps = Some b"
    by (auto simp: checkCircularDependencies_def)
  with Some show ?thesis
    by (auto simp: POST_dependencies_def split: option.splits)
qed

lemma POST_dependencies_fuel_mono:
  assumes "POST_dependencies fuel s i body = Some r" and "fuel \<le> fuel'"
  shows "POST_dependencies fuel' s i body = Some r"
proof (cases "\<exists>deps t. body = Some deps \<and> findUnique s i = Some t")
  case True
  then obtain deps t where b: "body = Some deps" "findUnique s i = Some t" by blast
  with assms(1) obtain c where c: "checkCircularDependencies fuel s i deps = Some c"
    by (auto simp: POST_dependencies_def split: option.splits)
  then have "checkCircularDependencies fuel' s i deps = Some c"
    unfolding checkCircularDependencies_def using assms(2)
    by (rule checkCircularDependencies_loop_fuel_mono)
  with c b assms(1) show ?thesis by (simp add: POST_dependencies_def)
next
  case False
  with assms(1) show ?thesis
    by (auto simp: POST_dependencies_def split: option.splits)
qed

section \<open>What an accepted update stores\<close>

lemma put_update_dependencies:
  assumes "put_update s i body = Inr s'" and "findUnique s i = Some t"
    and "body_dependencies body = Some ds"
  shows "map_option (\<lambda>t. set (dependencies t)) (findUnique s' i) = Some (set ds)"
  using assms
  by (auto simp: put_update_def findUnique_update_task set_connect split: if_splits)

lemma PUT_task_accepted:
  assumes "PUT_task fuel s i body = Some (Inr s')"
  shows "\<exists>t. findUnique s i = Some t \<and> put_update s i body = Inr s'"
  using assms by (auto simp: PUT_task_def split: option.splits if_splits)

lemma POST_dependencies_accepted:
  assumes "POST_dependencies fuel s i (Some deps) = Some (Inr s')"
  shows "\<exists>t. findUnique s i = Some t \<and>
           s' = update_task s i (\<lambda>t. t\<lparr>dependencies := connect (dependencies t) deps\<rparr>)"
  using assms by (auto simp: POST_dependencies_def split: option.splits if_splits)

text \<open>
  An accepted request to the dependencies route leaves the union of the set stored
  before and the proposed set; an accepted task update replaces the set, but by
  \<open>PUT_task_nonempty_dependencies\<close> the only list it is accepted with is the empty one.
\<close>

lemma POST_dependencies_stores_union:
  assumes "POST_dependencies fuel s i (Some deps) = Some (Inr s')"
  shows "\<exists>t. findUnique s i = Some t \<and>
           map_option (\<lambda>t. set (dependencies t)) (findUnique s' i) =
             Some (set (dependencies t) \<union> set deps)"
proof -
  from assms obtain t where t: "findUnique s i = Some t"
    and s': "s' = update_task s i (\<lambda>t. t\<lparr>dependencies := connect (dependencies t) deps\<rparr>)"
    using POST_dependencies_accepted by blast
  have "map_option (\<lambda>t. set (dependencies t)) (findUnique s' i) =
          Some (set (dependencies t) \<union> set deps)"
    unfolding s' by (simp add: findUnique_update_task t set_connect)
  with t show ?thesis by blast
qed

lemma PUT_task_accepted_only_empty:
  assumes "PUT_task fuel s i body = Some (Inr s')" and "body_dependencies body = Some ds"
  shows "ds = []"
proof (rule ccontr)
  assume ne: "ds \<noteq> []"
  from PUT_task_accepted [OF assms(1)] obtain t where t: "findUnique s i = Some t" by blast
  show False
  proof (cases fuel)
    case 0
    with assms t ne show False
      by (auto simp: PUT_task_def put_checkCircularDependencies_def neq_Nil_conv
          split: if_splits)
  next
    case (Suc n)
    with PUT_task_nonempty_dependencies [OF t assms(2) ne, of n] assms(1) show False by auto
  qed
qed

text \<open>
  C4. After an accepted update the stored set should be exactly the proposed set, on
  both routes. On the dependencies route the task \<open>a\<close>, which depends on \<open>b\<close>, is given
  the set \<open>{c}\<close>; the request is accepted and the stored set is \<open>{b, c}\<close>.
\<close>

theorem post_dependencies_merges:
  "POST_dependencies (Suc (Suc 0)) three_tasks ''a'' (Some [''c''])
   = Some (Inr [mk_task ''c'' ''Make slides'' TODO 0 [],
                mk_task ''b'' ''Write report'' TODO 0 [],
                mk_task ''a'' ''Research topic'' TODO 0 [''b'', ''c'']])
   \<and> set [''b'', ''c''] \<noteq> set [''c'']"
  by (simp add: route_defs three_tasks_def)

section \<open>What the cycle check of the dependencies route guarantees\<close>

text \<open>
  When the check answers that there is no cycle, the original task cannot be reached
  from any proposed dependency by one or more edges. What it does not look at is whether
  a proposed dependency is the original task itself.
\<close>

lemma hasCircularDependency_explored:
  shows "hasCircularDependency n s x st orig = Some (False, st') \<Longrightarrow> explored s orig (fst st) (snd st)
           \<Longrightarrow> explored s orig (fst st') (snd st') \<and> fst st \<subseteq> fst st' \<and> x \<in> fst st'
               \<and> snd st' = snd st"
    and "hasCircularDependency_loop n s x ds st orig = Some (False, st')
           \<Longrightarrow> explored s orig (fst st) (snd st) \<Longrightarrow> x \<in> snd st
           \<Longrightarrow> explored s orig (fst st') (snd st) \<and> fst st \<subseteq> fst st' \<and> set ds \<subseteq> fst st'
               \<and> orig \<notin> set ds \<and> snd st' = snd st - {x}"
proof (induction n s x st orig and n s x ds st orig arbitrary: st' and st'
    rule: hasCircularDependency_hasCircularDependency_loop.induct)
  case (1 s taskId st originalTaskId)
  then show ?case by simp
next
  case (2 n s taskId visited recursionStack originalTaskId)
  from "2.prems"(1) have notR: "taskId \<notin> recursionStack"
    by (auto split: if_splits)
  show ?case
  proof (cases "taskId \<in> visited")
    case True
    with "2.prems" notR show ?thesis by auto
  next
    case notV: False
    show ?thesis
    proof (cases "findUnique s taskId")
      case None
      with "2.prems"(1) notR notV
      have st': "st' = (insert taskId visited, recursionStack)" by auto
      have "(taskId, d) \<notin> live_edges s" for d
        using None by (simp add: live_edges_def)
      with "2.prems"(2) have "explored s originalTaskId (insert taskId visited) recursionStack"
        unfolding explored_def by auto
      with st' show ?thesis by auto
    next
      case (Some t)
      with "2.prems"(1) notR notV
      have l: "hasCircularDependency_loop n s taskId (map task_id (include_dependencies s t))
         (insert taskId visited, insert taskId recursionStack) originalTaskId = Some (False, st')"
        by simp
      from "2.prems"(2)
      have "explored s originalTaskId (insert taskId visited) (insert taskId recursionStack)"
        unfolding explored_def by auto
      with "2.IH" [OF notR notV Some l]
      have "explored s originalTaskId (fst st') (insert taskId recursionStack)
        \<and> insert taskId visited \<subseteq> fst st'
        \<and> set (map task_id (include_dependencies s t)) \<subseteq> fst st'
        \<and> originalTaskId \<notin> set (map task_id (include_dependencies s t))
        \<and> snd st' = insert taskId recursionStack - {taskId}"
        by auto
      then have e: "explored s originalTaskId (fst st') (insert taskId recursionStack)"
        and sub: "insert taskId visited \<subseteq> fst st'"
        and ds: "set (map task_id (include_dependencies s t)) \<subseteq> fst st'"
        and no: "originalTaskId \<notin> set (map task_id (include_dependencies s t))"
        and R: "snd st' = insert taskId recursionStack - {taskId}"
        by blast+
      from R notR have R': "snd st' = recursionStack" by auto
      have "d \<in> fst st' \<and> d \<noteq> originalTaskId" if "(taskId, d) \<in> live_edges s" for d
        using that Some ds no by (auto simp: live_edges_def)
      with e have "explored s originalTaskId (fst st') recursionStack"
        unfolding explored_def by blast
      with sub R' show ?thesis by auto
    qed
  qed
next
  case (3 n s taskId visited recursionStack originalTaskId)
  then show ?case by auto
next
  case (4 n s taskId dep deps visited recursionStack originalTaskId)
  from "4.prems"(1) have ne: "dep \<noteq> originalTaskId"
    by (auto split: if_splits)
  with "4.prems"(1) obtain st1 where
    d: "hasCircularDependency n s dep (visited, recursionStack) originalTaskId = Some (False, st1)"
    and l: "hasCircularDependency_loop n s taskId deps st1 originalTaskId = Some (False, st')"
    by (auto split: option.splits if_splits)
  from "4.IH"(1) [OF ne d] "4.prems"(2)
  have "explored s originalTaskId (fst st1) (snd st1) \<and> visited \<subseteq> fst st1
      \<and> dep \<in> fst st1 \<and> snd st1 = recursionStack"
    by auto
  then have e1: "explored s originalTaskId (fst st1) (snd st1)" and sub1: "visited \<subseteq> fst st1"
    and dep: "dep \<in> fst st1" and R1: "snd st1 = recursionStack"
    by blast+
  from "4.IH"(2) [OF ne d refl _ l e1] R1 "4.prems"(3)
  have "explored s originalTaskId (fst st') (snd st1) \<and> fst st1 \<subseteq> fst st'
      \<and> set deps \<subseteq> fst st' \<and> originalTaskId \<notin> set deps \<and> snd st' = snd st1 - {taskId}"
    by auto
  with R1 sub1 dep ne show ?case by auto
qed

lemma checkCircularDependencies_loop_explored:
  "checkCircularDependencies_loop n s i ds st = Some False \<Longrightarrow> explored s i (fst st) (snd st)
     \<Longrightarrow> \<exists>V. explored s i V (snd st) \<and> fst st \<subseteq> V \<and> set ds \<subseteq> V"
proof (induction ds arbitrary: st)
  case Nil
  then show ?case by auto
next
  case (Cons d ds)
  from Cons.prems(1) obtain st1 where
    h: "hasCircularDependency n s d st i = Some (False, st1)"
    and l: "checkCircularDependencies_loop n s i ds st1 = Some False"
    by (auto split: option.splits if_splits)
  from hasCircularDependency_explored(1) [OF h Cons.prems(2)]
  have e1: "explored s i (fst st1) (snd st1)" and sub: "fst st \<subseteq> fst st1"
    and d: "d \<in> fst st1" and R: "snd st1 = snd st" by blast+
  from Cons.IH [OF l e1] obtain V where "explored s i V (snd st1)" "fst st1 \<subseteq> V" "set ds \<subseteq> V"
    by blast
  with sub d R show ?case by auto
qed

lemma explored_no_path:
  assumes "explored s i V {}" and "d \<in> V"
  shows "(d, i) \<notin> (live_edges s)\<^sup>+"
proof
  assume "(d, i) \<in> (live_edges s)\<^sup>+"
  then obtain y where y: "(d, y) \<in> (live_edges s)\<^sup>*" and e: "(y, i) \<in> live_edges s"
    by (auto dest: tranclD2)
  from y assms(2) have "y \<in> V"
    by (induction rule: rtrancl_induct) (use assms(1) in \<open>auto simp: explored_def\<close>)
  with e assms(1) show False by (auto simp: explored_def)
qed

lemma checkCircularDependencies_sound:
  assumes "checkCircularDependencies n s i ds = Some False" and "d \<in> set ds"
  shows "(d, i) \<notin> (live_edges s)\<^sup>+"
proof -
  have "explored s i (fst ({}, {})) (snd ({} :: string set, {} :: string set))"
    by (simp add: explored_def)
  from checkCircularDependencies_loop_explored [OF assms(1) [unfolded checkCircularDependencies_def] this]
  obtain V where "explored s i V {}" "set ds \<subseteq> V" by auto
  with assms(2) show ?thesis using explored_no_path [of s i V d] by blast
qed

lemma findUnique_member:
  assumes "distinct (map task_id s)" and "t \<in> set s"
  shows "findUnique s (task_id t) = Some t"
  using assms unfolding findUnique_def by (induction s) (auto simp: image_iff)

lemma findUnique_None_iff: "findUnique s i = None \<longleftrightarrow> i \<notin> task_id ` set s"
  unfolding findUnique_def by (induction s) auto

lemma include_dependencies_wf:
  assumes "wf_store s" and "t \<in> set s"
  shows "map task_id (include_dependencies s t) = dependencies t"
proof -
  have "map task_id (List.map_filter (findUnique s) ds) = ds" if "set ds \<subseteq> task_id ` set s" for ds
    using that
  proof (induction ds)
    case Nil
    show ?case by simp
  next
    case (Cons d ds)
    then obtain t' where "findUnique s d = Some t'"
      using findUnique_None_iff [of s d] by auto
    with Cons findUnique_task_id [of s d t'] show ?case
      by simp
  qed
  with assms show ?thesis
    by (auto simp: include_dependencies_def wf_store_def list_all_iff)
qed

lemma live_edges_wf:
  assumes "wf_store s"
  shows "live_edges s = dep_edges s"
proof -
  have "(\<exists>t. findUnique s v = Some t \<and> d \<in> set (map task_id (include_dependencies s t)))
      \<longleftrightarrow> (\<exists>t. t \<in> set s \<and> task_id t = v \<and> d \<in> set (dependencies t))" for v d
  proof
    assume "\<exists>t. findUnique s v = Some t \<and> d \<in> set (map task_id (include_dependencies s t))"
    then obtain t where t: "findUnique s v = Some t"
      and d: "d \<in> set (map task_id (include_dependencies s t))" by blast
    from findUnique_task_id [OF t] have "t \<in> set s" "task_id t = v" by simp_all
    with d include_dependencies_wf [OF assms] show
      "\<exists>t. t \<in> set s \<and> task_id t = v \<and> d \<in> set (dependencies t)" by metis
  next
    assume "\<exists>t. t \<in> set s \<and> task_id t = v \<and> d \<in> set (dependencies t)"
    then obtain t where t: "t \<in> set s" "task_id t = v" "d \<in> set (dependencies t)" by blast
    with assms findUnique_member [of s t] have "findUnique s v = Some t"
      by (auto simp: wf_store_def)
    moreover from t include_dependencies_wf [OF assms t(1)]
    have "d \<in> set (map task_id (include_dependencies s t))" by simp
    ultimately show
      "\<exists>t. findUnique s v = Some t \<and> d \<in> set (map task_id (include_dependencies s t))"
      by blast
  qed
  then show ?thesis by (simp add: live_edges_def dep_edges_def)
qed

lemma path_to_source:
  assumes "(x, y) \<in> (E \<union> {i} \<times> D)\<^sup>*"
  shows "(x, y) \<in> E\<^sup>* \<or> (x, i) \<in> E\<^sup>*"
  using assms
proof (induction rule: rtrancl_induct)
  case base
  show ?case by simp
next
  case (step y z)
  then show ?case by (auto intro: rtrancl_into_rtrancl)
qed

lemma acyclic_add_out_edges:
  assumes "acyclic E" and "\<forall>d. d \<in> set ds \<longrightarrow> (d, i) \<notin> E\<^sup>*"
  shows "acyclic (E \<union> {i} \<times> set ds)"
  using assms(2)
proof (induction ds)
  case Nil
  with assms(1) show ?case by simp
next
  case (Cons d ds)
  then have IH: "acyclic (E \<union> {i} \<times> set ds)" by simp
  have "(d, i) \<notin> (E \<union> {i} \<times> set ds)\<^sup>*"
    using path_to_source [of d i E i "set ds"] Cons.prems by auto
  with IH have "acyclic (insert (i, d) (E \<union> {i} \<times> set ds))"
    by simp
  moreover have "E \<union> {i} \<times> set (d # ds) = insert (i, d) (E \<union> {i} \<times> set ds)" by auto
  ultimately show ?case by simp
qed

lemma dep_edges_update_task:
  assumes "findUnique s i = Some t" and "\<And>t. task_id (f t) = task_id t"
    and "\<And>t. set (dependencies (f t)) = set (dependencies t) \<union> D"
  shows "dep_edges (update_task s i f) = dep_edges s \<union> {i} \<times> D"
proof (intro set_eqI iffI)
  fix e
  assume "e \<in> dep_edges (update_task s i f)"
  then obtain a b u where e: "e = (a, b)" and u: "u \<in> set s"
    and a: "task_id (if task_id u = i then f u else u) = a"
    and b: "b \<in> set (dependencies (if task_id u = i then f u else u))"
    by (auto simp: dep_edges_def update_task_def)
  show "e \<in> dep_edges s \<union> {i} \<times> D"
  proof (cases "task_id u = i")
    case True
    with a b assms(2,3) have "a = i" "b \<in> set (dependencies u) \<or> b \<in> D" by auto
    with True u e show ?thesis by (auto simp: dep_edges_def)
  next
    case False
    with a b u e show ?thesis by (auto simp: dep_edges_def)
  qed
next
  fix e
  assume "e \<in> dep_edges s \<union> {i} \<times> D"
  then consider a b u where "e = (a, b)" "u \<in> set s" "task_id u = a" "b \<in> set (dependencies u)"
    | b where "e = (i, b)" "b \<in> D"
    by (auto simp: dep_edges_def)
  then show "e \<in> dep_edges (update_task s i f)"
  proof cases
    case 1
    let ?u = "if task_id u = i then f u else u"
    from 1 assms(2,3) have "?u \<in> set (update_task s i f)" "task_id ?u = a"
      "b \<in> set (dependencies ?u)"
      by (auto simp: update_task_def)
    with 1(1) show ?thesis unfolding dep_edges_def by blast
  next
    case 2
    from findUnique_task_id [OF assms(1)] have t: "t \<in> set s" "task_id t = i" by simp_all
    with 2 assms(2,3) have "f t \<in> set (update_task s i f)" "task_id (f t) = i"
      "b \<in> set (dependencies (f t))"
      by (auto simp: update_task_def image_iff intro!: bexI [of _ t])
    with 2(1) show ?thesis unfolding dep_edges_def by blast
  qed
qed

lemma task_ids_update_task:
  assumes "\<And>t. task_id (f t) = task_id t"
  shows "map task_id (update_task s i f) = map task_id s"
  using assms by (simp add: update_task_def)

lemma wf_store_deps:
  assumes "wf_store s" and "(a, b) \<in> dep_edges s"
  shows "a \<in> task_id ` set s \<and> b \<in> task_id ` set s"
  using assms by (auto simp: wf_store_def dep_edges_def list_all_iff)

lemma no_path_into_fresh:
  assumes "wf_store s" and "newId \<notin> task_id ` set s" and "d \<in> task_id ` set s"
  shows "(d, newId) \<notin> (dep_edges s)\<^sup>*"
proof
  assume "(d, newId) \<in> (dep_edges s)\<^sup>*"
  with assms(2,3) have "(d, newId) \<in> (dep_edges s)\<^sup>+"
    by (auto simp: rtrancl_eq_or_trancl)
  then obtain y where "(y, newId) \<in> dep_edges s" by (auto dest: tranclD2)
  with wf_store_deps [OF assms(1)] assms(2) show False by blast
qed

lemma POST_dependencies_accepted_check:
  assumes "POST_dependencies fuel s i (Some deps) = Some (Inr s')"
  shows "checkCircularDependencies fuel s i deps = Some False
           \<and> set deps \<subseteq> task_id ` set s"
proof -
  from assms have "checkCircularDependencies fuel s i deps = Some False"
    and "\<not> list_ex (\<lambda>d. findUnique s d = None) deps"
    by (auto simp: POST_dependencies_def split: option.splits if_splits)
  then show ?thesis
    by (auto simp: list_ex_iff findUnique_None_iff)
qed

lemma POST_dependencies_preserves:
  assumes "wf_store s" and "acyclic (dep_edges s)"
    and "POST_dependencies fuel s i (Some deps) = Some (Inr s')" and "i \<notin> set deps"
  shows "wf_store s' \<and> acyclic (dep_edges s')"
proof -
  let ?f = "\<lambda>t. t\<lparr>dependencies := connect (dependencies t) deps\<rparr>"
  from POST_dependencies_accepted [OF assms(3)] obtain t where
    t: "findUnique s i = Some t" and s': "s' = update_task s i ?f" by blast
  from POST_dependencies_accepted_check [OF assms(3)]
  have chk: "checkCircularDependencies fuel s i deps = Some False"
    and ex: "set deps \<subseteq> task_id ` set s" by simp_all
  have edges: "dep_edges s' = dep_edges s \<union> {i} \<times> set deps"
    unfolding s' by (rule dep_edges_update_task [OF t]) (simp_all add: set_connect)
  have "(d, i) \<notin> (dep_edges s)\<^sup>*" if "d \<in> set deps" for d
  proof -
    from checkCircularDependencies_sound [OF chk that] live_edges_wf [OF assms(1)]
    have "(d, i) \<notin> (dep_edges s)\<^sup>+" by simp
    moreover from that assms(4) have "d \<noteq> i" by auto
    ultimately show ?thesis by (auto simp: rtrancl_eq_or_trancl)
  qed
  then have acyc: "acyclic (dep_edges s')"
    unfolding edges using acyclic_add_out_edges [OF assms(2), of deps i] by blast
  have ids: "map task_id s' = map task_id s"
    unfolding s' by (simp add: task_ids_update_task)
  then have ids': "task_id ` set s' = task_id ` set s"
    by (metis list.set_map)
  have "set (dependencies u) \<subseteq> task_id ` set s" if "u \<in> set s'" for u
  proof -
    from that obtain u0 where u0: "u0 \<in> set s" "u = (if task_id u0 = i then ?f u0 else u0)"
      by (auto simp: s' update_task_def)
    with assms(1) have "set (dependencies u0) \<subseteq> task_id ` set s"
      by (auto simp: wf_store_def list_all_iff)
    with u0(2) ex show ?thesis by (auto simp: set_connect)
  qed
  with assms(1) ids ids' have "wf_store s'"
    by (simp add: wf_store_def list_all_iff)
  with acyc show ?thesis by simp
qed

lemma POST_tasks_preserves:
  assumes "wf_store s" and "acyclic (dep_edges s)" and "POST_tasks newId s body = Inr s'"
  shows "wf_store s' \<and> acyclic (dep_edges s')"
proof -
  let ?deps = "case new_dependencies body of None \<Rightarrow> [] | Some l \<Rightarrow> l"
  from assms(3) obtain due where
    s': "s' = \<lparr>task_id = newId, title = new_title body, status = TODO, dueDate = due,
            completedAt = None, dependencies = connect [] ?deps\<rparr> # s"
    and fresh: "findUnique s newId = None"
    and ex: "\<not> list_ex (\<lambda>d. findUnique s d = None) ?deps"
    by (auto simp: POST_tasks_def Let_def split: option.splits if_splits)
  from fresh have fresh': "newId \<notin> task_id ` set s" by (simp add: findUnique_None_iff)
  from ex have ex': "set ?deps \<subseteq> task_id ` set s"
    by (auto simp: list_ex_iff findUnique_None_iff)
  have edges: "dep_edges s' = dep_edges s \<union> {newId} \<times> set ?deps"
    unfolding s' by (auto simp: dep_edges_Cons set_connect)
  have "(d, newId) \<notin> (dep_edges s)\<^sup>*" if "d \<in> set ?deps" for d
    using no_path_into_fresh [OF assms(1) fresh'] ex' that by blast
  then have acyc: "acyclic (dep_edges s')"
    unfolding edges using acyclic_add_out_edges [OF assms(2), of ?deps newId] by blast
  from assms(1) fresh' ex' have "wf_store s'"
    unfolding s' by (auto simp: wf_store_def list_all_iff set_connect)
  with acyc show ?thesis by simp
qed

lemma DELETE_task_preserves:
  assumes "wf_store s" and "acyclic (dep_edges s)" and "DELETE_task s i = Inr s'"
  shows "wf_store s' \<and> acyclic (dep_edges s')"
proof -
  from assms(3) have
    s': "s' = map (\<lambda>t. t\<lparr>dependencies := removeAll i (dependencies t)\<rparr>)
                (filter (\<lambda>t. task_id t \<noteq> i) s)"
    by (auto simp: DELETE_task_def split: option.splits)
  have "dep_edges s' \<subseteq> dep_edges s"
    unfolding s' dep_edges_def by auto
  with assms(2) have acyc: "acyclic (dep_edges s')"
    by (rule acyclic_subset)
  have eq: "map task_id s' = filter (\<lambda>x. x \<noteq> i) (map task_id s)"
    unfolding s' by (simp add: filter_map comp_def)
  with assms(1) have d: "distinct (map task_id s')"
    by (simp add: wf_store_def)
  have "set (map task_id s') = set (map task_id s) - {i}"
    unfolding eq by auto
  then have ids': "task_id ` set s' = task_id ` set s - {i}"
    by simp
  have "set (dependencies u) \<subseteq> task_id ` set s - {i}" if "u \<in> set s'" for u
  proof -
    from that obtain u0 where u0: "u0 \<in> set s"
      "u = u0\<lparr>dependencies := removeAll i (dependencies u0)\<rparr>"
      by (auto simp: s')
    with assms(1) have "set (dependencies u0) \<subseteq> task_id ` set s"
      by (auto simp: wf_store_def list_all_iff)
    with u0(2) show ?thesis by auto
  qed
  with d ids' have "wf_store s'"
    by (simp add: wf_store_def list_all_iff)
  with acyc show ?thesis by simp
qed

lemma accept_preserves:
  assumes "wf_store s" and "acyclic (dep_edges s)" and "accept fuel s r = Some s'"
    and "no_self_dependency r"
  shows "wf_store s' \<and> acyclic (dep_edges s')"
proof (cases r)
  case (Create newId body)
  with assms(3) have "POST_tasks newId s body = Inr s'"
    by (auto split: sum.splits)
  with assms(1,2) show ?thesis by (rule POST_tasks_preserves)
next
  case (SetDependencies i deps)
  with assms(3) have "POST_dependencies fuel s i (Some deps) = Some (Inr s')"
    by (auto split: option.splits sum.splits)
  moreover from SetDependencies assms(4) have "i \<notin> set deps" by simp
  ultimately show ?thesis using assms(1,2) POST_dependencies_preserves by blast
next
  case (Delete i)
  with assms(3) have "DELETE_task s i = Inr s'"
    by (auto split: sum.splits)
  with assms(1,2) show ?thesis by (rule DELETE_task_preserves)
qed

lemma accept_all_preserves:
  assumes "accept_all fuel s rs = Some s'" and "wf_store s" and "acyclic (dep_edges s)"
    and "list_all no_self_dependency rs"
  shows "wf_store s' \<and> acyclic (dep_edges s')"
  using assms
proof (induction rs arbitrary: s)
  case Nil
  then show ?case by simp
next
  case (Cons r rs)
  from Cons.prems(1) obtain s1 where r: "accept fuel s r = Some s1"
    and rs: "accept_all fuel s1 rs = Some s'"
    by (auto split: option.splits)
  from Cons.prems(4) have n: "no_self_dependency r" "list_all no_self_dependency rs" by simp_all
  from accept_preserves [OF Cons.prems(2,3) r n(1)]
  have "wf_store s1" "acyclic (dep_edges s1)" by simp_all
  from Cons.IH [OF rs this n(2)] show ?case .
qed

section \<open>The completion gate\<close>

lemma normalizedStatus_DONE_iff:
  "normalizedStatus body = Some DONE \<longleftrightarrow>
     (\<exists>st. body_status body = Some st \<and> toLowerCase st = ''done'')"
  by (auto simp: normalizedStatus_def convertStatusToEnum_def toLowerCase_def Let_def
      split: option.splits if_splits)

lemma put_update_no_new_dependencies:
  assumes "findUnique s i = Some t"
    and "body_dependencies body = None \<or> body_dependencies body = Some []"
  shows "\<exists>s'. put_update s i body = Inr s' \<and>
           map_option status (findUnique s' i) =
             Some (case normalizedStatus body of None \<Rightarrow> status t | Some x \<Rightarrow> x)"
  using assms by (auto simp: put_update_def findUnique_update_task)

lemma incompleteDependencies_Nil_iff:
  "incompleteDependencies s t = [] \<longleftrightarrow>
     list_all (\<lambda>dep. status dep = DONE) (include_dependencies s t)"
  by (simp add: incompleteDependencies_def filter_empty_conv list_all_iff)

lemma PUT_task_gate_iff:
  assumes "findUnique s i = Some t"
  shows "PUT_task fuel s i body = Some (Inl (IncompleteDependencies l)) \<longleftrightarrow>
           normalizedStatus body = Some DONE
           \<and> \<not> list_all (\<lambda>dep. status dep = DONE) (include_dependencies s t)
           \<and> l = map (\<lambda>dep. (task_id dep, title dep))
                   (filter (\<lambda>dep. status dep \<noteq> DONE) (include_dependencies s t))"
proof (cases "normalizedStatus body = Some DONE \<and> incompleteDependencies s t \<noteq> []")
  case True
  with assms show ?thesis
    by (auto simp: PUT_task_def incompleteDependencies_Nil_iff [symmetric]
        incompleteDependencies_def)
next
  case False
  with assms have "PUT_task fuel s i body \<noteq> Some (Inl (IncompleteDependencies l))"
    by (auto simp: PUT_task_def put_update_def Let_def split: option.splits if_splits)
  with False show ?thesis
    by (auto simp: incompleteDependencies_Nil_iff)
qed

text \<open>
  C5, as the claim states it: a request to done is rejected exactly when some dependency
  is not done. The report's only dependency is done, and the request that asks for done
  and proposes the report as its own dependency is rejected, as circular.
\<close>

theorem done_with_cycle_rejected:
  "findUnique report_after_done_research ''b''
     = Some (mk_task ''b'' ''Write report'' TODO 0 [''a''])
   \<and> list_all (\<lambda>dep. status dep = DONE)
       (include_dependencies report_after_done_research
          (mk_task ''b'' ''Write report'' TODO 0 [''a'']))
   \<and> PUT_task (Suc 0) report_after_done_research ''b'' done_and_self
       = Some (Inl CircularDependency)"
  by (simp add: route_defs report_after_done_research_def done_and_self_def)

text \<open>
  C5, amended. For every update of an existing task: the completion gate rejects it
  exactly when its status lower-cases to \<open>done\<close> and some dependency of the task is not
  done, and the rejection carries the ids and titles of all the dependencies that are
  not done; so a request for another status is never rejected by the gate. A request
  that carries no dependency list, or an empty one, is rejected by nothing but the gate:
  otherwise it succeeds and the status it asks for is stored.
\<close>

theorem completion_gate:
  assumes "findUnique s i = Some t"
  shows "(PUT_task fuel s i body = Some (Inl (IncompleteDependencies l)) \<longleftrightarrow>
            (\<exists>st. body_status body = Some st \<and> toLowerCase st = ''done'')
            \<and> \<not> list_all (\<lambda>dep. status dep = DONE) (include_dependencies s t)
            \<and> l = map (\<lambda>dep. (task_id dep, title dep))
                    (filter (\<lambda>dep. status dep \<noteq> DONE) (include_dependencies s t)))
       \<and> (body_dependencies body = None \<or> body_dependencies body = Some [] \<longrightarrow>
            (if (\<exists>st. body_status body = Some st \<and> toLowerCase st = ''done'')
                \<and> \<not> list_all (\<lambda>dep. status dep = DONE) (include_dependencies s t)
             then PUT_task fuel s i body =
                    Some (Inl (IncompleteDependencies
                      (map (\<lambda>dep. (task_id dep, title dep))
                         (filter (\<lambda>dep. status dep \<noteq> DONE) (include_dependencies s t)))))
             else \<exists>s'. PUT_task fuel s i body = Some (Inr s') \<and>
                    map_option status (findUnique s' i) =
                      Some (case normalizedStatus body of None \<Rightarrow> status t | Some x \<Rightarrow> x)))"
proof (intro conjI impI)
  show "PUT_task fuel s i body = Some (Inl (IncompleteDependencies l)) \<longleftrightarrow>
            (\<exists>st. body_status body = Some st \<and> toLowerCase st = ''done'')
            \<and> \<not> list_all (\<lambda>dep. status dep = DONE) (include_dependencies s t)
            \<and> l = map (\<lambda>dep. (task_id dep, title dep))
                    (filter (\<lambda>dep. status dep \<noteq> DONE) (include_dependencies s t))"
    unfolding PUT_task_gate_iff [OF assms] normalizedStatus_DONE_iff ..
next
  assume nodeps: "body_dependencies body = None \<or> body_dependencies body = Some []"
  let ?gate = "(\<exists>st. body_status body = Some st \<and> toLowerCase st = ''done'')
                \<and> \<not> list_all (\<lambda>dep. status dep = DONE) (include_dependencies s t)"
  show "if ?gate
        then PUT_task fuel s i body =
               Some (Inl (IncompleteDependencies
                 (map (\<lambda>dep. (task_id dep, title dep))
                    (filter (\<lambda>dep. status dep \<noteq> DONE) (include_dependencies s t)))))
        else \<exists>s'. PUT_task fuel s i body = Some (Inr s') \<and>
               map_option status (findUnique s' i) =
                 Some (case normalizedStatus body of None \<Rightarrow> status t | Some x \<Rightarrow> x)"
  proof (cases ?gate)
    case True
    then show ?thesis
      using PUT_task_gate_iff [OF assms, of fuel body] normalizedStatus_DONE_iff [of body]
      by simp
  next
    case False
    then have ng: "\<not> (normalizedStatus body = Some DONE \<and> incompleteDependencies s t \<noteq> [])"
      by (simp add: normalizedStatus_DONE_iff incompleteDependencies_Nil_iff)
    from put_update_no_new_dependencies [OF assms nodeps]
    obtain s' where "put_update s i body = Inr s'"
      "map_option status (findUnique s' i) =
         Some (case normalizedStatus body of None \<Rightarrow> status t | Some x \<Rightarrow> x)" by blast
    with ng nodeps assms have "PUT_task fuel s i body = Some (Inr s') \<and>
        map_option status (findUnique s' i) =
          Some (case normalizedStatus body of None \<Rightarrow> status t | Some x \<Rightarrow> x)"
      by (auto simp: PUT_task_def)
    with False show ?thesis by auto
  qed
qed

text \<open>
  The amended C5 at work on \<^const>\<open>report_after_research\<close>: the report cannot be
  completed, the research can, and the report can be moved to in-progress.
\<close>

theorem completion_gate_witness:
  "PUT_task 0 report_after_research ''b'' (status_only ''done'')
     = Some (Inl (IncompleteDependencies [(''a'', ''Research topic'')]))
   \<and> (\<exists>s'. PUT_task 0 report_after_research ''a'' (status_only ''done'') = Some (Inr s')
          \<and> map_option status (findUnique s' ''a'') = Some DONE)
   \<and> (\<exists>s'. PUT_task 0 report_after_research ''b'' (status_only ''in-progress'')
          = Some (Inr s') \<and> map_option status (findUnique s' ''b'') = Some IN_PROGRESS)"
proof -
  have b: "findUnique report_after_research ''b''
             = Some (mk_task ''b'' ''Write report'' TODO 0 [''a''])"
    and a: "findUnique report_after_research ''a''
             = Some (mk_task ''a'' ''Research topic'' TODO 0 [])"
    by (simp_all add: findUnique_def report_after_research_def mk_task_def)
  have n: "body_dependencies (status_only x) = None \<or> body_dependencies (status_only x) = Some []"
    for x by (simp add: status_only_def)
  have 1: "PUT_task 0 report_after_research ''b'' (status_only ''done'')
     = Some (Inl (IncompleteDependencies [(''a'', ''Research topic'')]))"
    using completion_gate [OF b, where fuel = 0 and body = "status_only ''done''",
        THEN conjunct2, rule_format, OF n]
    by (simp add: report_after_research_def include_dependencies_def findUnique_def
        toLowerCase_def mk_task_def status_only_def)
  have 2: "\<exists>s'. PUT_task 0 report_after_research ''a'' (status_only ''done'') = Some (Inr s')
          \<and> map_option status (findUnique s' ''a'') = Some DONE"
    using completion_gate [OF a, where fuel = 0 and body = "status_only ''done''",
        THEN conjunct2, rule_format, OF n]
    by (simp add: report_after_research_def include_dependencies_def findUnique_def
        toLowerCase_def normalizedStatus_def convertStatusToEnum_def mk_task_def
        status_only_def)
  have 3: "\<exists>s'. PUT_task 0 report_after_research ''b'' (status_only ''in-progress'')
          = Some (Inr s') \<and> map_option status (findUnique s' ''b'') = Some IN_PROGRESS"
    using completion_gate [OF b, where fuel = 0 and body = "status_only ''in-progress''",
        THEN conjunct2, rule_format, OF n]
    by (simp add: report_after_research_def include_dependencies_def findUnique_def
        toLowerCase_def normalizedStatus_def convertStatusToEnum_def mk_task_def
        status_only_def)
  from 1 2 3 show ?thesis by (intro conjI)
qed

section \<open>Status normalisation\<close>

lemma PUT_task_never_InvalidInput: "PUT_task fuel s i body \<noteq> Some (Inl InvalidInput)"
  by (auto simp: PUT_task_def put_update_def Let_def split: option.splits if_splits)

lemma PUT_task_gate_only_for_DONE:
  assumes "PUT_task fuel s i body = Some (Inl (IncompleteDependencies l))"
  shows "normalizedStatus body = Some DONE"
  using assms
  by (auto simp: PUT_task_def put_update_def Let_def split: option.splits if_splits)

lemma convertStatusToEnum_default:
  assumes "toLowerCase st \<notin> {''todo'', ''in-progress'', ''done''}"
  shows "convertStatusToEnum st = TODO"
  using assms by (simp add: convertStatusToEnum_def Let_def)

text \<open>
  C10, as the claim states it: a status string other than \<open>todo\<close>, \<open>in-progress\<close> and
  \<open>done\<close> is normalised to \<open>todo\<close>, and the gate is not evaluated for it. The string
  \<open>DONE\<close> is none of the three, yet it is normalised to done and the gate rejects
  the request.
\<close>

theorem uppercase_done_is_gated:
  "''DONE'' \<notin> {''todo'', ''in-progress'', ''done''}
   \<and> convertStatusToEnum ''DONE'' = DONE
   \<and> PUT_task 0 report_after_research ''b'' (status_only ''DONE'')
       = Some (Inl (IncompleteDependencies [(''a'', ''Research topic'')]))"
  by (simp add: route_defs report_after_research_def)

text \<open>
  C10, amended: a non-empty status string that, lower-cased, is none of \<open>todo\<close>,
  \<open>in-progress\<close> and \<open>done\<close> is stored as \<open>TODO\<close> and the update succeeds; the task
  route never answers invalid input; and the completion gate rejects only a request
  whose status lower-cases to \<open>done\<close>.
\<close>

theorem unknown_status_becomes_TODO:
  "(findUnique s i = Some t \<and> body_status body = Some st \<and> st \<noteq> []
      \<and> toLowerCase st \<notin> {''todo'', ''in-progress'', ''done''}
      \<and> (body_dependencies body = None \<or> body_dependencies body = Some []) \<longrightarrow>
        (\<exists>s'. PUT_task fuel s i body = Some (Inr s')
           \<and> map_option status (findUnique s' i) = Some TODO))
   \<and> PUT_task fuel s i body \<noteq> Some (Inl InvalidInput)
   \<and> (PUT_task fuel s i body = Some (Inl (IncompleteDependencies l)) \<longrightarrow>
        (\<exists>st. body_status body = Some st \<and> toLowerCase st = ''done''))"
proof (intro conjI impI)
  assume a: "findUnique s i = Some t \<and> body_status body = Some st \<and> st \<noteq> []
      \<and> toLowerCase st \<notin> {''todo'', ''in-progress'', ''done''}
      \<and> (body_dependencies body = None \<or> body_dependencies body = Some [])"
  then have n: "normalizedStatus body = Some TODO"
    by (simp add: normalizedStatus_def convertStatusToEnum_default)
  from a put_update_no_new_dependencies [of s i t body] n
  obtain s' where "put_update s i body = Inr s'"
    "map_option status (findUnique s' i) = Some TODO" by auto
  with a n show "\<exists>s'. PUT_task fuel s i body = Some (Inr s')
           \<and> map_option status (findUnique s' i) = Some TODO"
    by (auto simp: PUT_task_def)
next
  show "PUT_task fuel s i body \<noteq> Some (Inl InvalidInput)"
    by (rule PUT_task_never_InvalidInput)
next
  assume "PUT_task fuel s i body = Some (Inl (IncompleteDependencies l))"
  then show "\<exists>st. body_status body = Some st \<and> toLowerCase st = ''done''"
    using PUT_task_gate_only_for_DONE normalizedStatus_DONE_iff by blast
qed

text \<open>
  The amended C10 at work: the status \<open>finished\<close> is stored as \<open>TODO\<close>, and the request
  with the status \<open>Done\<close>, which the gate rejects, has a status that lower-cases to
  \<open>done\<close>.
\<close>

theorem unknown_status_becomes_TODO_witness:
  "(\<exists>s'. PUT_task 0 report_after_research ''b'' (status_only ''finished'') = Some (Inr s')
        \<and> map_option status (findUnique s' ''b'') = Some TODO)
   \<and> toLowerCase ''Done'' = ''done''"
proof -
  have b: "findUnique report_after_research ''b''
             = Some (mk_task ''b'' ''Write report'' TODO 0 [''a''])"
    by (simp add: findUnique_def report_after_research_def mk_task_def)
  have g: "PUT_task 0 report_after_research ''b'' (status_only ''Done'')
     = Some (Inl (IncompleteDependencies [(''a'', ''Research topic'')]))"
    by (simp add: route_defs report_after_research_def)
  have l: "toLowerCase ''finished'' \<notin> {''todo'', ''in-progress'', ''done''}"
    by (simp add: toLowerCase_def)
  from unknown_status_becomes_TODO [THEN conjunct1, rule_format,
      of report_after_research "''b''" _ "status_only ''finished''" "''finished''" 0] b l
  have 1: "\<exists>s'. PUT_task 0 report_after_research ''b'' (status_only ''finished'') = Some (Inr s')
        \<and> map_option status (findUnique s' ''b'') = Some TODO"
    by (simp add: status_only_def)
  from unknown_status_becomes_TODO [THEN conjunct2, THEN conjunct2, rule_format, OF g]
  have 2: "toLowerCase ''Done'' = ''done''"
    by (simp add: status_only_def)
  from 1 2 show ?thesis by blast
qed

section \<open>Maps built from the task list\<close>

lemma Map_new_conv: "Map_new entries = map_of (rev entries)"
proof -
  have "foldl (\<lambda>m (k, v). m(k \<mapsto> v)) m entries = m ++ map_of (rev entries)" for m :: "'a \<rightharpoonup> 'b"
    by (induction entries arbitrary: m) (auto simp: map_add_upd_left fun_eq_iff map_add_def split: option.splits)
  then show ?thesis by (simp add: Map_new_def)
qed

lemma Map_new_Some_in:
  assumes "Map_new (map (\<lambda>t. (key t, t)) tasks) k = Some t"
  shows "t \<in> set tasks \<and> key t = k"
  using assms unfolding Map_new_conv
  by (auto dest!: map_of_SomeD)


lemma Map_new_last:
  assumes "key t \<notin> key ` set ys"
  shows "Map_new (map (\<lambda>t. (key t, t)) (xs @ t # ys)) (key t) = Some t"
proof -
  have "map_of (map (\<lambda>t. (key t, t)) (rev ys)) (key t) = None"
    using assms by (auto simp: map_of_eq_None_iff image_iff)
  then show ?thesis
    unfolding Map_new_conv by (simp add: rev_map map_add_def)
qed


section \<open>Earliest start dates\<close>

lemma calculateEarliestStartDate_fold:
  "foldl (\<lambda>latestCompletionDate dep.
            (case taskMap dep of
               None \<Rightarrow> latestCompletionDate
             | Some dependency \<Rightarrow>
                 (let dependencyCompletionDate = dueDate dependency in
                  if status dependency = DONE then
                    (let completionDate =
                       (case completedAt dependency of
                          Some c \<Rightarrow> c | None \<Rightarrow> dependencyCompletionDate)
                     in if completionDate > latestCompletionDate then completionDate
                        else latestCompletionDate)
                  else if dependencyCompletionDate > latestCompletionDate
                       then dependencyCompletionDate
                       else latestCompletionDate)))
          acc deps
   = fold max (map referenceDate (List.map_filter taskMap deps)) acc"
proof (induction deps arbitrary: acc)
  case Nil
  show ?case by simp
next
  case (Cons d deps)
  show ?case
  proof (cases "taskMap d")
    case None
    then show ?thesis using Cons.IH by simp
  next
    case (Some x)
    then show ?thesis
      using Cons.IH
      by (simp add: referenceDate_def Let_def max_def
          split: option.splits)
  qed
qed

lemma calculateEarliestStartDate_no_dependencies:
  "dependencies t = [] \<Longrightarrow> calculateEarliestStartDate clock k t taskMap = (clock k, Suc k)"
  by (simp add: calculateEarliestStartDate_def)

lemma calculateEarliestStartDate_dependencies:
  "dependencies t \<noteq> [] \<Longrightarrow>
     calculateEarliestStartDate clock k t taskMap =
       (Max (set (0 # map referenceDate (List.map_filter taskMap (dependencies t)))), k)"
  unfolding calculateEarliestStartDate_def calculateEarliestStartDate_fold
  by (simp only: Max.set_eq_fold if_False)

text \<open>
  Every task without dependencies reads the clock once, so the loop advances the
  number of the next reading by the number of these tasks.
\<close>

lemma calculateEarliestStartDates_loop_readings:
  "snd (calculateEarliestStartDates_loop clock ts taskMap (obj, k)) =
     k + length (filter (\<lambda>u. dependencies u = []) ts)"
  by (induction ts arbitrary: obj k) (simp_all add: calculateEarliestStartDate_def)

lemma calculateEarliestStartDates_loop_append:
  "calculateEarliestStartDates_loop clock (xs @ ys) taskMap st =
     calculateEarliestStartDates_loop clock ys taskMap
       (calculateEarliestStartDates_loop clock xs taskMap st)"
proof (induction xs arbitrary: st)
  case Nil
  show ?case by simp
next
  case (Cons x xs)
  show ?case by (cases st) (simp add: Cons.IH split: prod.splits)
qed

text \<open>The loop leaves a key alone that is the title of none of its tasks.\<close>

lemma calculateEarliestStartDates_loop_other:
  "key \<notin> title ` set ts \<or> key = ''__proto__'' \<Longrightarrow>
     fst (calculateEarliestStartDates_loop clock ts taskMap (obj, k)) key = obj key"
proof (induction ts arbitrary: obj k)
  case Nil
  show ?case by simp
next
  case (Cons t ts)
  then show ?case
    by (auto simp: Object_set_def split: prod.splits)
qed

lemma calculateEarliestStartDates_loop_dom:
  "dom (fst (calculateEarliestStartDates_loop clock ts taskMap (obj, k)))
     \<subseteq> dom obj \<union> title ` set ts"
proof (induction ts arbitrary: obj k)
  case Nil
  show ?case by simp
next
  case (Cons t ts)
  show ?case
  proof (cases "calculateEarliestStartDate clock k t taskMap")
    case (Pair earliestStart k')
    from Cons.IH [of "Object_set (title t) earliestStart obj" k']
    have "dom (fst (calculateEarliestStartDates_loop clock ts taskMap
              (Object_set (title t) earliestStart obj, k')))
            \<subseteq> dom (Object_set (title t) earliestStart obj) \<union> title ` set ts" .
    moreover have "dom (Object_set (title t) earliestStart obj) \<subseteq> insert (title t) (dom obj)"
      by (auto simp: Object_set_def split: if_splits)
    ultimately show ?thesis using Pair by auto
  qed
qed

text \<open>
  The entry of a title other than \<^verbatim>\<open>__proto__\<close> is the value computed for the last task
  that has it, with the clock reading that this task gets.
\<close>

lemma calculateEarliestStartDates_loop_last:
  assumes "title t \<notin> title ` set ys" and "title t \<noteq> ''__proto__''"
  shows "fst (calculateEarliestStartDates_loop clock (xs @ t # ys) taskMap (obj0, k)) (title t) =
           Some (fst (calculateEarliestStartDate clock
                   (k + length (filter (\<lambda>u. dependencies u = []) xs)) t taskMap))"
proof -
  obtain obj k1 where xs: "calculateEarliestStartDates_loop clock xs taskMap (obj0, k) = (obj, k1)"
    by (cases "calculateEarliestStartDates_loop clock xs taskMap (obj0, k)")
  from calculateEarliestStartDates_loop_readings [of clock xs taskMap obj0 k] xs
  have k1: "k1 = k + length (filter (\<lambda>u. dependencies u = []) xs)" by simp
  obtain v k2 where t: "calculateEarliestStartDate clock k1 t taskMap = (v, k2)"
    by (cases "calculateEarliestStartDate clock k1 t taskMap")
  have "fst (calculateEarliestStartDates_loop clock (xs @ t # ys) taskMap (obj0, k)) (title t)
      = fst (calculateEarliestStartDates_loop clock ys taskMap
               (Object_set (title t) v obj, k2)) (title t)"
    by (simp add: calculateEarliestStartDates_loop_append xs t)
  also have "\<dots> = Object_set (title t) v obj (title t)"
    using assms(1) by (simp add: calculateEarliestStartDates_loop_other)
  also have "\<dots> = Some v"
    using assms(2) by (simp add: Object_set_def)
  finally show ?thesis using t k1 by simp
qed

lemma calculateEarliestStartDates_last:
  assumes "title t \<notin> title ` set ys" and "title t \<noteq> ''__proto__''"
  shows "fst (calculateEarliestStartDates clock k (xs @ t # ys)) (title t) =
           Some (fst (calculateEarliestStartDate clock
                   (k + length (filter (\<lambda>u. dependencies u = []) xs)) t
                   (Map_new (map (\<lambda>t. (task_id t, t)) (xs @ t # ys)))))"
  unfolding calculateEarliestStartDates_def
  using assms by (rule calculateEarliestStartDates_loop_last)

lemma calculateEarliestStartDates_dom:
  "dom (fst (calculateEarliestStartDates clock k tasks)) \<subseteq> title ` set tasks"
  using calculateEarliestStartDates_loop_dom [of clock tasks _ Map.empty k]
  by (simp add: calculateEarliestStartDates_def)

lemmas analysis_defs =
  calculateEarliestStartDates_def calculateEarliestStartDate_def Map_new_def
  mk_task_def referenceDate_def spec_earliestStart_def criticalPathIds_def
  findCriticalPath_def calculateTotalDuration_def ceil_days_def GET_analysis_def
  Object_set_def ticking_clock_def

text \<open>
  C6, as the claim states it: the earliest start of a task with dependencies is the
  latest reference date along its whole ancestor chain. In \<^const>\<open>chain3\<close> the slides
  depend on the report (due on day 5), which depends on the research (due after day
  10): the code answers day 5 for the slides, and the latest reference date among
  their ancestors is the one of the research.
\<close>

theorem earliest_start_not_propagated:
  "fst (calculateEarliestStartDate (ticking_clock 1) 0
         (mk_task ''c'' ''Make slides'' TODO 1728000000 [''b''])
         (Map_new (map (\<lambda>t. (task_id t, t)) chain3))) = 432000000
   \<and> spec_earliestStart 3 1 (Map_new (map (\<lambda>t. (task_id t, t)) chain3))
       (mk_task ''c'' ''Make slides'' TODO 1728000000 [''b'']) = 864000001
   \<and> fst (calculateEarliestStartDates (ticking_clock 1) 0 chain3) ''Make slides''
       = Some 432000000"
  by (simp add: chain3_def analysis_defs numeral_3_eq_3)

text \<open>
  C6, amended: for every task, with a title other than \<^verbatim>\<open>__proto__\<close>, of an input with
  pairwise distinct titles, the earliest start stored under its title is: the clock
  reading taken when the task is processed, if the task has no dependencies; and
  otherwise the latest reference date among its immediate dependencies that are in the
  input, when one of them is in the input and that date is not before the epoch.
\<close>

theorem earliest_start_one_hop:
  assumes "distinct (map title (xs @ t # ys))" and "title t \<noteq> ''__proto__''"
  shows "(dependencies t = [] \<longrightarrow>
            fst (calculateEarliestStartDates clock k (xs @ t # ys)) (title t) =
              Some (clock (k + length (filter (\<lambda>u. dependencies u = []) xs))))
       \<and> (dependencies t \<noteq> []
            \<and> List.map_filter (Map_new (map (\<lambda>t. (task_id t, t)) (xs @ t # ys)))
                (dependencies t) \<noteq> []
            \<and> 0 \<le> Max (set (map referenceDate
                  (List.map_filter (Map_new (map (\<lambda>t. (task_id t, t)) (xs @ t # ys)))
                     (dependencies t)))) \<longrightarrow>
            fst (calculateEarliestStartDates clock k (xs @ t # ys)) (title t) =
              Some (Max (set (map referenceDate
                  (List.map_filter (Map_new (map (\<lambda>t. (task_id t, t)) (xs @ t # ys)))
                     (dependencies t))))))"
proof -
  from assms(1) have last: "title t \<notin> title ` set ys" by auto
  note entry = calculateEarliestStartDates_last [OF last assms(2), of clock k xs]
  show ?thesis
  proof (intro conjI impI)
    assume "dependencies t = []"
    with entry show "fst (calculateEarliestStartDates clock k (xs @ t # ys)) (title t) =
              Some (clock (k + length (filter (\<lambda>u. dependencies u = []) xs)))"
      by (simp add: calculateEarliestStartDate_no_dependencies)
  next
    let ?refs = "map referenceDate
        (List.map_filter (Map_new (map (\<lambda>t. (task_id t, t)) (xs @ t # ys))) (dependencies t))"
    assume a: "dependencies t \<noteq> []
        \<and> List.map_filter (Map_new (map (\<lambda>t. (task_id t, t)) (xs @ t # ys)))
            (dependencies t) \<noteq> []
        \<and> 0 \<le> Max (set ?refs)"
    then have "set ?refs \<noteq> {}" "finite (set ?refs)" by simp_all
    then have "Max (insert 0 (set ?refs)) = max 0 (Max (set ?refs))"
      by simp
    with a have "Max (set (0 # ?refs)) = Max (set ?refs)" by simp
    with entry a show "fst (calculateEarliestStartDates clock k (xs @ t # ys)) (title t) =
        Some (Max (set ?refs))"
      by (simp add: calculateEarliestStartDate_dependencies)
  qed
qed

text \<open>
  The amended C6 at work on \<^const>\<open>chain3\<close>, with a clock that starts at 1: the slides
  get the due date of the report, and the research, the only task that reads the clock,
  gets its first reading.
\<close>

theorem earliest_start_one_hop_witness:
  "fst (calculateEarliestStartDates (ticking_clock 1) 0 chain3) ''Make slides''
     = Some 432000000
   \<and> fst (calculateEarliestStartDates (ticking_clock 1) 0 chain3) ''Research topic'' = Some 1"
proof -
  let ?b = "mk_task ''b'' ''Write report'' TODO 432000000 [''a'']"
  let ?c = "mk_task ''c'' ''Make slides'' TODO 1728000000 [''b'']"
  let ?a = "mk_task ''a'' ''Research topic'' TODO 864000001 []"
  have c: "chain3 = [?b] @ ?c # [?a]" and a: "chain3 = [?b, ?c] @ ?a # []"
    by (simp_all add: chain3_def)
  have d: "distinct (map title chain3)"
    by (simp add: chain3_def mk_task_def)
  have pc: "title ?c \<noteq> ''__proto__''" and pa: "title ?a \<noteq> ''__proto__''"
    by (simp_all add: mk_task_def)
  have 1: "fst (calculateEarliestStartDates (ticking_clock 1) 0 chain3) ''Make slides''
     = Some 432000000"
    using earliest_start_one_hop [OF d [unfolded c] pc, of "ticking_clock 1" 0, folded c]
    by (simp add: chain3_def Map_new_def mk_task_def referenceDate_def)
  have 2: "fst (calculateEarliestStartDates (ticking_clock 1) 0 chain3) ''Research topic''
     = Some 1"
    using earliest_start_one_hop [OF d [unfolded a] pa, of "ticking_clock 1" 0, folded a]
    by (simp add: mk_task_def ticking_clock_def)
  from 1 2 show ?thesis by (rule conjI)
qed

section \<open>The result is keyed by title\<close>

text \<open>
  The total duration adds one term for every entry of the path that the title map
  holds a task for, each with a clock reading of its own.
\<close>

lemma calculateTotalDuration_loop_sum:
  "calculateTotalDuration_loop clock taskMap criticalPath (totalDays, k) =
     (totalDays
        + (\<Sum>(t, j)\<leftarrow>zip (List.map_filter taskMap criticalPath)
                       [k..<k + length (List.map_filter taskMap criticalPath)].
             max 1 (ceil_days (dueDate t - clock j))),
      k + length (List.map_filter taskMap criticalPath))"
proof (induction criticalPath arbitrary: totalDays k)
  case Nil
  show ?case by simp
next
  case (Cons entry rest)
  show ?case
  proof (cases "taskMap entry")
    case None
    then show ?thesis by (simp add: Cons.IH)
  next
    case (Some t)
    have "[k..<k + Suc n] = k # [Suc k..<Suc k + n]" for n
      by (simp add: upt_conv_Cons)
    with Some show ?thesis by (simp add: Cons.IH)
  qed
qed

lemma ceil_days_ceiling: "ceil_days ms = \<lceil>real_of_int ms / 86400000\<rceil>"
  using ceiling_divide_eq_div [where 'a = real, of ms 86400000] by (simp add: ceil_days_def)

lemma calculateTotalDuration_sum:
  "fst (calculateTotalDuration clock k tasks criticalPath)
     = (\<Sum>(t, j)\<leftarrow>zip (List.map_filter (Map_new (map (\<lambda>t. (title t, t)) tasks)) criticalPath)
                     [k..<k + length (List.map_filter (Map_new (map (\<lambda>t. (title t, t)) tasks))
                                        criticalPath)].
          max 1 \<lceil>real_of_int (dueDate t - clock j) / 86400000\<rceil>)"
  by (simp add: calculateTotalDuration_def calculateTotalDuration_loop_sum ceil_days_ceiling)

text \<open>
  C9, as the claim states it: for two tasks with the same title the earliest-start
  object has a single entry for that title. Two tasks titled \<^verbatim>\<open>__proto__\<close> leave no
  entry for it.
\<close>

theorem proto_title_has_no_entry:
  "map title proto_titles = [''__proto__'', ''__proto__'']
   \<and> distinct (map task_id proto_titles)
   \<and> fst (calculateEarliestStartDates (ticking_clock 0) 0 proto_titles) ''__proto__'' = None"
  by (simp add: proto_titles_def analysis_defs)

text \<open>
  C9, amended. The analysis keys its earliest-start object and its total-duration lookup
  by title: the keys of the object are titles, and the entry of a title other than
  \<^verbatim>\<open>__proto__\<close> is the value computed for the last task of the list that has this
  title; the total duration adds, for the entries of the critical path that the title
  map holds a task for, the days of that task, which for a title is the last task of the
  list that has it.
\<close>

theorem analysis_keyed_by_title:
  "(title t \<notin> title ` set ys \<and> title t \<noteq> ''__proto__'' \<longrightarrow>
      fst (calculateEarliestStartDates clock k (xs @ t # ys)) (title t)
        = Some (fst (calculateEarliestStartDate clock
                  (k + length (filter (\<lambda>u. dependencies u = []) xs)) t
                  (Map_new (map (\<lambda>t. (task_id t, t)) (xs @ t # ys))))))
   \<and> dom (fst (calculateEarliestStartDates clock k tasks)) \<subseteq> title ` set tasks
   \<and> fst (calculateTotalDuration clock k tasks criticalPath)
        = (\<Sum>(t, j)\<leftarrow>zip (List.map_filter (Map_new (map (\<lambda>t. (title t, t)) tasks))
                              criticalPath)
                        [k..<k + length (List.map_filter
                                   (Map_new (map (\<lambda>t. (title t, t)) tasks)) criticalPath)].
             max 1 \<lceil>real_of_int (dueDate t - clock j) / 86400000\<rceil>)
   \<and> (title t \<notin> title ` set ys \<longrightarrow>
        Map_new (map (\<lambda>t. (title t, t)) (xs @ t # ys)) (title t) = Some t)"
proof (intro conjI impI)
  assume "title t \<notin> title ` set ys \<and> title t \<noteq> ''__proto__''"
  then show "fst (calculateEarliestStartDates clock k (xs @ t # ys)) (title t)
        = Some (fst (calculateEarliestStartDate clock
                  (k + length (filter (\<lambda>u. dependencies u = []) xs)) t
                  (Map_new (map (\<lambda>t. (task_id t, t)) (xs @ t # ys)))))"
    by (simp add: calculateEarliestStartDates_last)
next
  show "dom (fst (calculateEarliestStartDates clock k tasks)) \<subseteq> title ` set tasks"
    by (rule calculateEarliestStartDates_dom)
next
  show "fst (calculateTotalDuration clock k tasks criticalPath)
        = (\<Sum>(t, j)\<leftarrow>zip (List.map_filter (Map_new (map (\<lambda>t. (title t, t)) tasks))
                              criticalPath)
                        [k..<k + length (List.map_filter
                                   (Map_new (map (\<lambda>t. (title t, t)) tasks)) criticalPath)].
             max 1 \<lceil>real_of_int (dueDate t - clock j) / 86400000\<rceil>)"
    by (rule calculateTotalDuration_sum)
next
  assume "title t \<notin> title ` set ys"
  then show "Map_new (map (\<lambda>t. (title t, t)) (xs @ t # ys)) (title t) = Some t"
    by (rule Map_new_last)
qed

text \<open>
  The amended C9 at work on \<^const>\<open>same_title\<close>, with a clock that starts at 0: the
  entry of \<open>Review\<close> is the reading 0 of the second review, not the 7 computed for the
  first; the critical path runs through the first review, due in three days, and its
  duration, one day, is taken from the second.
\<close>

theorem analysis_keyed_by_title_witness:
  "fst (calculateEarliestStartDates (ticking_clock 0) 0 same_title) ''Review''
       = Some (fst (calculateEarliestStartDate (ticking_clock 0) 0
                 (mk_task ''r1'' ''Review'' TODO 86400000 [])
                 (Map_new (map (\<lambda>t. (task_id t, t)) same_title))))
   \<and> fst (calculateEarliestStartDates (ticking_clock 0) 0 same_title) ''Review'' = Some 0
   \<and> fst (calculateEarliestStartDate (ticking_clock 0) 0
        (mk_task ''r2'' ''Review'' TODO (3 * 86400000) [''w''])
        (Map_new (map (\<lambda>t. (task_id t, t)) same_title))) = 7
   \<and> findCriticalPath 2 same_title = Some [''Write report'', ''Review'']
   \<and> fst (calculateTotalDuration (ticking_clock 0) 2 same_title [''Write report'', ''Review''])
       = 2
   \<and> Map_new (map (\<lambda>t. (title t, t)) same_title) ''Review''
       = Some (mk_task ''r1'' ''Review'' TODO 86400000 [])"
proof -
  let ?r1 = "mk_task ''r1'' ''Review'' TODO 86400000 []"
  have s: "same_title = [mk_task ''r2'' ''Review'' TODO (3 * 86400000) [''w'']]
             @ ?r1 # [mk_task ''w'' ''Write report'' TODO 7 []]"
    by (simp add: same_title_def)
  have l: "title ?r1 \<notin> title ` set [mk_task ''w'' ''Write report'' TODO 7 []]
      \<and> title ?r1 \<noteq> ''__proto__''"
    by (simp add: mk_task_def)
  note k = analysis_keyed_by_title [where clock = "ticking_clock 0" and k = 0
      and t = ?r1 and ys = "[mk_task ''w'' ''Write report'' TODO 7 []]"
      and xs = "[mk_task ''r2'' ''Review'' TODO (3 * 86400000) [''w'']]", folded s]
  have 1: "fst (calculateEarliestStartDates (ticking_clock 0) 0 same_title) ''Review''
       = Some (fst (calculateEarliestStartDate (ticking_clock 0) 0 ?r1
                 (Map_new (map (\<lambda>t. (task_id t, t)) same_title))))"
    using k [THEN conjunct1, rule_format, OF l] by (simp add: mk_task_def)
  have 2: "fst (calculateEarliestStartDates (ticking_clock 0) 0 same_title) ''Review'' = Some 0"
    unfolding 1 by (simp add: analysis_defs)
  have 3: "fst (calculateEarliestStartDate (ticking_clock 0) 0
        (mk_task ''r2'' ''Review'' TODO (3 * 86400000) [''w''])
        (Map_new (map (\<lambda>t. (task_id t, t)) same_title))) = 7"
    by (simp add: same_title_def analysis_defs)
  have 4: "findCriticalPath 2 same_title = Some [''Write report'', ''Review'']"
    by (simp add: same_title_def analysis_defs numeral_2_eq_2)
  have 5: "fst (calculateTotalDuration (ticking_clock 0) 2 same_title
              [''Write report'', ''Review'']) = 2"
    by (simp add: same_title_def analysis_defs)
  have 6: "Map_new (map (\<lambda>t. (title t, t)) same_title) ''Review'' = Some ?r1"
    using k [THEN conjunct2, THEN conjunct2, THEN conjunct2, rule_format] l
    by (simp add: mk_task_def)
  from 1 2 3 4 5 6 show ?thesis by (intro conjI)
qed

section \<open>Critical path\<close>

text \<open>
  The store \<^const>\<open>chain3\<close> is what four accepted requests leave, and it has no cycle.
\<close>

lemma chain3_reachable:
  "accept_all (Suc (Suc n)) []
     [Create ''a''
        \<lparr>new_title = ''Research topic'', new_dueDate = Some 864000001, new_dependencies = None\<rparr>,
      Create ''c''
        \<lparr>new_title = ''Make slides'', new_dueDate = Some 1728000000, new_dependencies = None\<rparr>,
      Create ''b''
        \<lparr>new_title = ''Write report'', new_dueDate = Some 432000000,
         new_dependencies = Some [''a'']\<rparr>,
      SetDependencies ''c'' [''b'']]
   = Some chain3"
  by (simp add: route_defs chain3_def)

lemma chain3_acyclic: "acyclic (dep_edges chain3)"
proof -
  have "wf_store []" "acyclic (dep_edges [])"
    by (simp_all add: wf_store_def dep_edges_Nil acyclic_Nil)
  from accept_all_preserves [OF chain3_reachable [of 0] this] show ?thesis by simp
qed

text \<open>
  C7. The critical path should be a longest chain of the graph, by number of tasks.
  For the acyclic \<^const>\<open>chain3\<close> the code answers a path of two tasks, while the
  chain \<open>a\<close>, \<open>b\<close>, \<open>c\<close> has three.
\<close>

theorem critical_path_misses_longest_chain:
  "criticalPathIds (Suc (Suc n)) chain3 = Some [''a'', ''b'']
   \<and> findCriticalPath (Suc (Suc n)) chain3 = Some [''Research topic'', ''Write report'']
   \<and> spec_chain chain3 [''a'', ''b'', ''c'']
   \<and> acyclic (dep_edges chain3)"
  using chain3_acyclic by (simp add: chain3_def analysis_defs findUnique_def)



section \<open>The analysis returns\<close>

lemma dfs_fuel_mono:
  shows "dfs n i taskMap st = Some r \<Longrightarrow> n \<le> n' \<Longrightarrow> dfs n' i taskMap st = Some r"
    and "dfs_loop n ds taskMap ml st = Some r \<Longrightarrow> n \<le> n'
           \<Longrightarrow> dfs_loop n' ds taskMap ml st = Some r"
proof (induction n i taskMap st and n ds taskMap ml st arbitrary: r n' and r n'
    rule: dfs_dfs_loop.induct)
  case (1 s taskId taskMap st)
  then show ?case by simp
next
  case (2 n taskId taskMap visited pathLengths)
  from "2.prems"(2) obtain k where n': "n' = Suc k" and k: "n \<le> k"
    by (cases n') auto
  show ?case
  proof (cases "taskId \<notin> visited \<and> (\<exists>t. taskMap taskId = Some t \<and> dependencies t \<noteq> [])")
    case True
    then obtain t where t: "taskId \<notin> visited" "taskMap taskId = Some t" "dependencies t \<noteq> []"
      by blast
    with "2.prems"(1) obtain r' where
      r': "dfs_loop n (dependencies t) taskMap (0, []) (insert taskId visited, pathLengths)
            = Some r'"
      by (auto split: option.splits)
    from "2.IH" [OF t r' k]
    have "dfs_loop k (dependencies t) taskMap (0, []) (insert taskId visited, pathLengths)
            = Some r'" .
    with r' "2.prems"(1) t show ?thesis unfolding n' by simp
  next
    case False
    with "2.prems"(1) show ?thesis unfolding n' by (auto split: option.splits)
  qed
next
  case (3 n taskMap maxLength longestPath st)
  then show ?case by simp
next
  case (4 n dep deps taskMap maxLength longestPath st)
  from "4.prems"(1) obtain depPath st' where
    d: "dfs n dep taskMap st = Some (depPath, st')"
    by (auto split: option.splits)
  from "4.IH"(1) [OF d "4.prems"(2)] have d': "dfs n' dep taskMap st = Some (depPath, st')" .
  show ?case
  proof (cases "length depPath > maxLength")
    case True
    with "4.prems"(1) d have "dfs_loop n deps taskMap (length depPath, depPath) st' = Some r"
      by simp
    from "4.IH"(2) [OF d refl True this "4.prems"(2)] d' True show ?thesis by simp
  next
    case False
    with "4.prems"(1) d have "dfs_loop n deps taskMap (maxLength, longestPath) st' = Some r"
      by simp
    from "4.IH"(3) [OF d refl False this "4.prems"(2)] d' False show ?thesis by simp
  qed
qed

lemma dfs_returns:
  shows "finite U \<Longrightarrow> \<forall>j t. taskMap j = Some t \<longrightarrow> set (dependencies t) \<subseteq> U
           \<Longrightarrow> i \<in> U \<Longrightarrow> card (U - fst st) < n
           \<Longrightarrow> \<exists>p st'. dfs n i taskMap st = Some (p, st') \<and> fst st \<subseteq> fst st'"
    and "finite U \<Longrightarrow> \<forall>j t. taskMap j = Some t \<longrightarrow> set (dependencies t) \<subseteq> U
           \<Longrightarrow> set ds \<subseteq> U \<Longrightarrow> card (U - fst st) < n
           \<Longrightarrow> \<exists>p st'. dfs_loop n ds taskMap ml st = Some (p, st') \<and> fst st \<subseteq> fst st'"
proof (induction n i taskMap st and n ds taskMap ml st rule: dfs_dfs_loop.induct)
  case (1 taskId taskMap st)
  then show ?case by simp
next
  case (2 n taskId taskMap visited pathLengths)
  note fin = "2.prems"(1) and closed = "2.prems"(2)
  show ?case
  proof (cases "taskId \<notin> visited \<and> (\<exists>t. taskMap taskId = Some t \<and> dependencies t \<noteq> [])")
    case True
    then obtain t where t: "taskId \<notin> visited" "taskMap taskId = Some t" "dependencies t \<noteq> []"
      by blast
    from closed t(2) have sub: "set (dependencies t) \<subseteq> U" by blast
    from t(1) "2.prems"(3) have "taskId \<in> U - visited" by simp
    with fin have "card (U - insert taskId visited) < card (U - visited)"
      by (metis Diff_insert card_Diff1_less finite_Diff)
    with "2.prems"(4) have "card (U - fst (insert taskId visited, pathLengths)) < n" by simp
    from "2.IH" [OF t fin closed sub this]
    obtain p st' where "dfs_loop n (dependencies t) taskMap (0, [])
        (insert taskId visited, pathLengths) = Some (p, st')"
      and "insert taskId visited \<subseteq> fst st'" by auto
    with t show ?thesis by (cases st') auto
  next
    case False
    then show ?thesis by (auto split: option.splits)
  qed
next
  case (3 n taskMap maxLength longestPath st)
  then show ?case by simp
next
  case (4 n dep deps taskMap maxLength longestPath st)
  note fin = "4.prems"(1) and closed = "4.prems"(2)
  from "4.prems"(3) have dep: "dep \<in> U" and deps: "set deps \<subseteq> U" by auto
  from "4.IH"(1) [OF fin closed dep "4.prems"(4)]
  obtain depPath st' where d: "dfs n dep taskMap st = Some (depPath, st')"
    and mono: "fst st \<subseteq> fst st'" by auto
  from mono have "U - fst st' \<subseteq> U - fst st" by auto
  with fin have "card (U - fst st') \<le> card (U - fst st)"
    by (simp add: card_mono)
  with "4.prems"(4) have c: "card (U - fst st') < n" by simp
  show ?case
  proof (cases "length depPath > maxLength")
    case True
    from "4.IH"(2) [OF d refl True fin closed deps c] d True mono show ?thesis by auto
  next
    case False
    from "4.IH"(3) [OF d refl False fin closed deps c] d False mono show ?thesis by auto
  qed
qed

lemma findCriticalPath_loop_fuel_mono:
  "findCriticalPath_loop n ts taskMap ml st = Some p \<Longrightarrow> n \<le> n'
     \<Longrightarrow> findCriticalPath_loop n' ts taskMap ml st = Some p"
proof (induction n ts taskMap ml st rule: findCriticalPath_loop.induct)
  case (1 n taskMap maxLength criticalPath st)
  then show ?case by simp
next
  case (2 n t ts taskMap maxLength criticalPath visited pathLengths)
  show ?case
  proof (cases "task_id t \<in> visited")
    case True
    with 2 show ?thesis by simp
  next
    case notin: False
    with "2.prems"(1) obtain path st' where
      d: "dfs n (task_id t) taskMap (visited, pathLengths) = Some (path, st')"
      by (auto split: option.splits)
    from dfs_fuel_mono(1) [OF d "2.prems"(2)]
    have d': "dfs n' (task_id t) taskMap (visited, pathLengths) = Some (path, st')" .
    show ?thesis
    proof (cases "length path > maxLength")
      case True
      with "2.prems"(1) d notin
      have "findCriticalPath_loop n ts taskMap (length path, path) st' = Some p" by simp
      from "2.IH"(1) [OF notin d refl True this "2.prems"(2)] d' True notin
      show ?thesis by simp
    next
      case False
      with "2.prems"(1) d notin
      have "findCriticalPath_loop n ts taskMap (maxLength, criticalPath) st' = Some p" by simp
      from "2.IH"(2) [OF notin d refl False this "2.prems"(2)] d' False notin
      show ?thesis by simp
    qed
  qed
qed

lemma findCriticalPath_loop_returns:
  "finite U \<Longrightarrow> \<forall>j t. taskMap j = Some t \<longrightarrow> set (dependencies t) \<subseteq> U
     \<Longrightarrow> task_id ` set ts \<subseteq> U \<Longrightarrow> card (U - fst st) < n
     \<Longrightarrow> \<exists>p. findCriticalPath_loop n ts taskMap ml st = Some p"
proof (induction n ts taskMap ml st rule: findCriticalPath_loop.induct)
  case (1 n taskMap maxLength criticalPath st)
  then show ?case by simp
next
  case (2 n t ts taskMap maxLength criticalPath visited pathLengths)
  note fin = "2.prems"(1) and closed = "2.prems"(2)
  from "2.prems"(3) have t: "task_id t \<in> U" and ts: "task_id ` set ts \<subseteq> U" by auto
  show ?case
  proof (cases "task_id t \<in> visited")
    case True
    with "2.IH"(3) [OF _ fin closed ts "2.prems"(4)] show ?thesis by simp
  next
    case notin: False
    from dfs_returns(1) [OF fin closed t "2.prems"(4)]
    obtain path st' where d: "dfs n (task_id t) taskMap (visited, pathLengths) = Some (path, st')"
      and mono: "visited \<subseteq> fst st'" by auto
    from mono have "U - fst st' \<subseteq> U - visited" by auto
    with fin have "card (U - fst st') \<le> card (U - visited)"
      by (simp add: card_mono)
    with "2.prems"(4) have c: "card (U - fst st') < n" by simp
    show ?thesis
    proof (cases "length path > maxLength")
      case True
      from "2.IH"(1) [OF notin d refl True fin closed ts c] d True notin
      show ?thesis by simp
    next
      case False
      from "2.IH"(2) [OF notin d refl False fin closed ts c] d False notin
      show ?thesis by simp
    qed
  qed
qed

text \<open>
  The analysis returns when the fuel exceeds the number of ids in the input, and more
  fuel does not change what it returns.
\<close>

lemma GET_analysis_returns:
  assumes "card (task_id ` set tasks \<union> (\<Union>t\<in>set tasks. set (dependencies t))) < fuel"
  shows "\<exists>r. GET_analysis fuel clock tasks = Some r"
proof -
  let ?U = "task_id ` set tasks \<union> (\<Union>t\<in>set tasks. set (dependencies t))"
  have fin: "finite ?U" by simp
  have closed: "\<forall>j t. Map_new (map (\<lambda>t. (task_id t, t)) tasks) j = Some t
          \<longrightarrow> set (dependencies t) \<subseteq> ?U"
    using Map_new_Some_in [of task_id tasks] by blast
  have "card (?U - fst ({}, Map.empty :: string \<rightharpoonup> nat)) < fuel"
    using assms by simp
  from findCriticalPath_loop_returns [OF fin closed _ this, of tasks "(0, [])"]
  obtain p where "criticalPathIds fuel tasks = Some p"
    by (auto simp: criticalPathIds_def)
  then show ?thesis
    by (simp add: GET_analysis_def findCriticalPath_def split: prod.splits)
qed

lemma GET_analysis_fuel_mono:
  assumes "GET_analysis fuel clock tasks = Some r" and "fuel \<le> fuel'"
  shows "GET_analysis fuel' clock tasks = Some r"
proof -
  from assms(1) obtain ids where ids: "criticalPathIds fuel tasks = Some ids"
    by (auto simp: GET_analysis_def findCriticalPath_def split: option.splits prod.splits)
  then have "criticalPathIds fuel' tasks = Some ids"
    unfolding criticalPathIds_def using assms(2) by (rule findCriticalPath_loop_fuel_mono)
  with ids assms(1) show ?thesis
    by (simp add: GET_analysis_def findCriticalPath_def split: prod.splits)
qed

section \<open>Total duration\<close>

lemma sum_list_ge_length:
  fixes f :: "'a \<Rightarrow> int"
  shows "int (length xs) \<le> (\<Sum>x\<leftarrow>xs. max 1 (f x))"
  by (induction xs) auto







end
